theory Spec2Isabelle
  imports Main "HOL-Library.Char_ord" "HOL-Library.List_Lexorder" "HOL-Library.AList"
begin

section \<open>Strings and character classes\<close>

text \<open>
  A Python \<^verbatim>\<open>str\<close> is modelled as a \<^typ>\<open>string\<close>, one \<^typ>\<open>char\<close> per code point, so
  the model covers text whose code points are below 256.  The character classes below are
  the ones Python 3 uses on that range: \<^verbatim>\<open>str.isspace\<close> and the pattern \<^verbatim>\<open>\s\<close> agree,
  \<^verbatim>\<open>\d\<close> is the decimal digits, \<^verbatim>\<open>\w\<close> (which decides \<^verbatim>\<open>\b\<close>) is the alphanumeric
  characters and the underscore, and \<^verbatim>\<open>str.lower\<close> moves the upper-case letters by 32.
\<close>

definition py_ord :: "char \<Rightarrow> nat" where
  "py_ord c = of_char c"

definition in_range :: "nat \<Rightarrow> nat \<Rightarrow> char \<Rightarrow> bool" where
  "in_range lo hi c = (lo \<le> py_ord c \<and> py_ord c \<le> hi)"

text \<open>\<^verbatim>\<open>\s\<close> and \<^verbatim>\<open>str.isspace\<close>: TAB, LF, VT, FF, CR, FS, GS, RS, US, space, NEL, NBSP.\<close>

definition is_space :: "char \<Rightarrow> bool" where
  "is_space c = (in_range 9 13 c \<or> in_range 28 32 c \<or> py_ord c = 133 \<or> py_ord c = 160)"

text \<open>\<^verbatim>\<open>[A-Z]\<close>, \<^verbatim>\<open>[a-z]\<close> and \<^verbatim>\<open>\d\<close>.\<close>

definition is_upper_az :: "char \<Rightarrow> bool" where
  "is_upper_az c = in_range 65 90 c"

definition is_lower_az :: "char \<Rightarrow> bool" where
  "is_lower_az c = in_range 97 122 c"

definition is_digit :: "char \<Rightarrow> bool" where
  "is_digit c = in_range 48 57 c"

text \<open>\<^verbatim>\<open>\w\<close> on code points below 256.\<close>

definition is_word :: "char \<Rightarrow> bool" where
  "is_word c = (is_digit c \<or> is_upper_az c \<or> is_lower_az c \<or> py_ord c = 95
     \<or> py_ord c = 170 \<or> py_ord c = 178 \<or> py_ord c = 179 \<or> py_ord c = 181
     \<or> py_ord c = 185 \<or> py_ord c = 186 \<or> in_range 188 190 c
     \<or> in_range 192 214 c \<or> in_range 216 246 c \<or> in_range 248 255 c)"

text \<open>The class \<^verbatim>\<open>[a-zA-Z\s\-\']\<close> of the patterns.\<close>

definition name_char :: "char \<Rightarrow> bool" where
  "name_char c = (is_lower_az c \<or> is_upper_az c \<or> is_space c \<or> c = CHR ''-'' \<or> c = CHR 0x27)"

text \<open>\<^verbatim>\<open>str.lower\<close>, one character at a time: A-Z and the Latin-1 capitals move by 32.\<close>

definition lower_char :: "char \<Rightarrow> char" where
  "lower_char c =
     (if is_upper_az c \<or> in_range 192 214 c \<or> in_range 216 222 c
      then char_of (py_ord c + 32) else c)"

definition lower :: "string \<Rightarrow> string" where
  "lower s = map lower_char s"

text \<open>\<^verbatim>\<open>str.strip()\<close>: whitespace removed at both ends.\<close>

definition strip :: "string \<Rightarrow> string" where
  "strip s = rev (dropWhile is_space (rev (dropWhile is_space s)))"

text \<open>\<^verbatim>\<open>str.split()\<close>: the maximal runs of characters that are not whitespace.\<close>

function split :: "string \<Rightarrow> string list" where
  "split s =
     (case dropWhile is_space s of
        [] \<Rightarrow> []
      | c # cs \<Rightarrow> takeWhile (\<lambda>x. \<not> is_space x) (c # cs)
                 # split (dropWhile (\<lambda>x. \<not> is_space x) cs))"
  by pat_completeness auto
termination
proof (relation "measure length")
  show "wf (measure length)" by simp
next
  fix s :: string and c cs
  assume a: "dropWhile is_space s = c # cs"
  have "length (dropWhile (\<lambda>x. \<not> is_space x) cs) \<le> length cs"
    by (rule length_dropWhile_le)
  moreover have "length (c # cs) \<le> length s"
    using length_dropWhile_le [of is_space s] a by simp
  ultimately show "(dropWhile (\<lambda>x. \<not> is_space x) cs, s) \<in> measure length"
    by simp
qed

declare split.simps [simp del]

text \<open>\<^verbatim>\<open>a in b\<close> on strings: \<open>a\<close> occurs in \<open>b\<close> as a contiguous substring.\<close>

fun starts_with :: "string \<Rightarrow> string \<Rightarrow> bool" where
  "starts_with [] s = True"
| "starts_with (p # ps) [] = False"
| "starts_with (p # ps) (c # cs) = (p = c \<and> starts_with ps cs)"

fun is_in :: "string \<Rightarrow> string \<Rightarrow> bool" where
  "is_in p [] = (p = [])"
| "is_in p (c # cs) = (starts_with p (c # cs) \<or> is_in p cs)"

section \<open>The regular-expression substitutions of the name cleaner\<close>

text \<open>\<^verbatim>\<open>re.sub(r'\s+', ' ', s)\<close>: every maximal whitespace run becomes one space.\<close>

function sub_ws :: "string \<Rightarrow> string" where
  "sub_ws [] = []"
| "sub_ws (c # cs) =
     (if is_space c then CHR '' '' # sub_ws (dropWhile is_space cs) else c # sub_ws cs)"
  by pat_completeness auto
termination
  by (relation "measure length") (auto simp: length_dropWhile_le less_Suc_eq_le)

text \<open>\<^verbatim>\<open>re.sub(r'^#\d+\s+', '', s)\<close>: a hash, digits and whitespace at the start.\<close>

definition sub_rank :: "string \<Rightarrow> string" where
  "sub_rank s =
     (case s of
        [] \<Rightarrow> s
      | c # cs \<Rightarrow>
          (let ds = takeWhile is_digit cs; r = dropWhile is_digit cs
           in if c = CHR ''#'' \<and> ds \<noteq> [] \<and> takeWhile is_space r \<noteq> []
              then dropWhile is_space r else s))"

text \<open>\<^verbatim>\<open>re.sub(r'^C\s+', '', s)\<close>: the champion marker, case-sensitive.\<close>

definition sub_champion :: "string \<Rightarrow> string" where
  "sub_champion s =
     (case s of
        [] \<Rightarrow> s
      | c # cs \<Rightarrow> if c = CHR ''C'' \<and> takeWhile is_space cs \<noteq> [] then dropWhile is_space cs else s)"

text \<open>
  A keyword matched under \<^verbatim>\<open>re.I\<close>: the same length, and character by character equal
  up to case.  The keywords hold letters and spaces only, and \<^verbatim>\<open>re.escape\<close> keeps a
  space a literal space.
\<close>

definition ci_eq :: "string \<Rightarrow> string \<Rightarrow> bool" where
  "ci_eq kw s = (lower kw = lower s)"

text \<open>\<^verbatim>\<open>re.sub(r'^' + re.escape(kw) + r'\s+', '', s, flags=re.I)\<close>.\<close>

definition sub_prefix :: "string \<Rightarrow> string \<Rightarrow> string" where
  "sub_prefix kw s =
     (let r = drop (length kw) s
      in if ci_eq kw (take (length kw) s) \<and> takeWhile is_space r \<noteq> []
         then dropWhile is_space r else s)"

text \<open>
  \<^verbatim>\<open>re.sub(r'\s+' + re.escape(kw) + r'$', '', s, flags=re.I)\<close>.  \<^verbatim>\<open>$\<close> holds at the end
  of the string and also just before a line feed that ends it; the match starts at the
  beginning of the whitespace run in front of the keyword, and what follows it is kept.
\<close>

definition sub_suffix :: "string \<Rightarrow> string \<Rightarrow> string" where
  "sub_suffix kw s =
     (let tail = (if s \<noteq> [] \<and> last s = CHR 0x0A then [CHR 0x0A] else []);
          body = take (length s - length tail) s;
          pre = take (length body - length kw) body;
          w = drop (length body - length kw) body
      in if ci_eq kw w \<and> takeWhile is_space (rev pre) \<noteq> []
         then rev (dropWhile is_space (rev pre)) @ tail else s)"

section \<open>The name cleaner, the normaliser and the matcher\<close>

definition prefix_keywords :: "string list" where
  "prefix_keywords =
     [''Live now'', ''Live'', ''LIVE NOW'', ''LIVE'', ''Card'', ''Method'', ''Main Card'', ''Main'']"

definition suffix_keywords :: "string list" where
  "suffix_keywords =
     [''Round'', ''Round Time'', ''Time'', ''Follow live'', ''Follow'', ''LIVE NOW'', ''LIVE'', ''now'']"

text \<open>The two \<^verbatim>\<open>for\<close> loops apply one substitution per keyword, in list order.\<close>

definition clean_fighter_name :: "string \<Rightarrow> string" where
  "clean_fighter_name name =
     (let n1 = sub_ws (strip name);
          n2 = sub_rank n1;
          n3 = sub_champion n2;
          n4 = foldl (\<lambda>n kw. sub_prefix kw n) n3 prefix_keywords;
          n5 = foldl (\<lambda>n kw. sub_suffix kw n) n4 suffix_keywords
      in sub_ws (strip n5))"

definition normalize_name_for_matching :: "string \<Rightarrow> string" where
  "normalize_name_for_matching name =
     (let ws = split name in if length ws \<ge> 1 then lower (last ws) else lower name)"

definition names_match :: "string \<Rightarrow> string \<Rightarrow> bool" where
  "names_match name1 name2 =
     (let name1_lower = lower name1; name2_lower = lower name2
      in if name1_lower = name2_lower then True
         else if is_in name1_lower name2_lower \<or> is_in name2_lower name1_lower
         then (let shorter = (if length name1 < length name2 then name1 else name2);
                   longer = (if length name1 < length name2 then name2 else name1);
                   shorter_words = split (lower shorter);
                   longer_words = split (lower longer)
               in if shorter_words \<noteq> [] \<and> longer_words \<noteq> []
                     \<and> last shorter_words = last longer_words
                  then True else False)
         else False)"

section \<open>The pattern scan\<close>

text \<open>
  The pattern is
  \<^verbatim>\<open>\b([A-Z][a-zA-Z\s\-\']{2,50})\s+vs\s+([A-Z][a-zA-Z\s\-\']{2,50})\b\<close>.
  \<^verbatim>\<open>\b\<close> holds between two characters of which exactly one is a word character; the
  start and the end of the text count as not a word character.  The scan carries the
  character in front of the current position.
\<close>

definition at_boundary :: "char option \<Rightarrow> string \<Rightarrow> bool" where
  "at_boundary prev rest =
     ((case prev of None \<Rightarrow> False | Some p \<Rightarrow> is_word p)
        \<noteq> (case rest of [] \<Rightarrow> False | c # _ \<Rightarrow> is_word c))"

text \<open>
  The second group after its capital \<open>c\<close>: the quantifier is greedy, so the longest run
  of \<open>k\<close> class characters is tried first and given back one by one, down to two, until
  \<^verbatim>\<open>\b\<close> holds behind the group.  The result is the group and the text behind it.
\<close>

fun try_group2 :: "char \<Rightarrow> string \<Rightarrow> nat \<Rightarrow> (string \<times> string) option" where
  "try_group2 c cs k =
     (if k < 2 then None
      else if at_boundary (Some (last (c # take k cs))) (drop k cs)
           then Some (c # take k cs, drop k cs)
           else try_group2 c cs (k - 1))"

declare try_group2.simps [simp del]

text \<open>
  \<^verbatim>\<open>\s+vs\s+\<close> and the second group, on the text behind the first group.  Each
  \<^verbatim>\<open>\s+\<close> is followed by a character that is not whitespace, so it takes its whole
  whitespace run; \<^verbatim>\<open>vs\<close> is case-sensitive.
\<close>

definition match_rest :: "string \<Rightarrow> (string \<times> string) option" where
  "match_rest r =
     (let r1 = dropWhile is_space r; r2 = drop 2 r1; r3 = dropWhile is_space r2
      in if takeWhile is_space r = [] then None
         else if \<not> starts_with ''vs'' r1 then None
         else if takeWhile is_space r2 = [] then None
         else (case r3 of
                 [] \<Rightarrow> None
               | c # cs \<Rightarrow>
                   if is_upper_az c
                   then try_group2 c cs (length (takeWhile name_char (take 50 cs)))
                   else None))"

text \<open>
  The first group after its capital \<open>c\<close>: greedy as well, \<open>n\<close> class characters from the
  longest run down to two, the first length behind which the rest of the pattern matches.
\<close>

fun try_group1 :: "char \<Rightarrow> string \<Rightarrow> nat \<Rightarrow> (string \<times> string \<times> string) option" where
  "try_group1 c cs n =
     (if n < 2 then None
      else (case match_rest (drop n cs) of
              Some (g2, r) \<Rightarrow> Some (c # take n cs, g2, r)
            | None \<Rightarrow> try_group1 c cs (n - 1)))"

declare try_group1.simps [simp del]

text \<open>One match attempt at the current position: both groups and the text behind the match.\<close>

definition match_at :: "char option \<Rightarrow> string \<Rightarrow> (string \<times> string \<times> string) option" where
  "match_at prev s =
     (case s of
        [] \<Rightarrow> None
      | c # cs \<Rightarrow>
          if at_boundary prev s \<and> is_upper_az c
          then try_group1 c cs (length (takeWhile name_char (take 50 cs)))
          else None)"

lemma try_group2_shorter: "try_group2 c cs k = Some (g, r) \<Longrightarrow> length r \<le> length cs \<and> g \<noteq> []"
proof (induction c cs k rule: try_group2.induct)
  case (1 c cs k)
  then show ?case
    by (subst (asm) (2) try_group2.simps) (auto split: if_splits)
qed

lemma match_rest_SomeD:
  "match_rest r = Some (g, r') \<Longrightarrow>
     \<exists>c cs. dropWhile is_space (drop 2 (dropWhile is_space r)) = c # cs
       \<and> is_upper_az c
       \<and> try_group2 c cs (length (takeWhile name_char (take 50 cs))) = Some (g, r')"
  unfolding match_rest_def Let_def
  apply (cases "dropWhile is_space (drop 2 (dropWhile is_space r))")
   apply (simp only: list.case if_cancel option.simps)
  apply (simp only: list.case split: if_splits)
         apply (simp_all only: option.simps)
  apply blast
  done

lemma match_rest_shorter: "match_rest r = Some (g, r') \<Longrightarrow> length r' < length r \<and> g \<noteq> []"
proof -
  assume a: "match_rest r = Some (g, r')"
  have "length (dropWhile is_space (drop 2 (dropWhile is_space r)))
          \<le> length (drop 2 (dropWhile is_space r))"
    by (rule length_dropWhile_le)
  also have "\<dots> \<le> length (dropWhile is_space r)"
    by (simp only: length_drop diff_le_self)
  also have "\<dots> \<le> length r"
    by (rule length_dropWhile_le)
  finally have d: "length (dropWhile is_space (drop 2 (dropWhile is_space r))) \<le> length r" .
  from match_rest_SomeD [OF a] obtain c cs where
    r3: "dropWhile is_space (drop 2 (dropWhile is_space r)) = c # cs"
    and t: "try_group2 c cs (length (takeWhile name_char (take 50 cs))) = Some (g, r')"
    by blast
  from try_group2_shorter [OF t] have "length r' \<le> length cs" and "g \<noteq> []" by simp_all
  moreover from d r3 have "length cs < length r" by simp
  ultimately show ?thesis by simp
qed

lemma try_group1_shorter: "try_group1 c cs n = Some (g1, g2, r) \<Longrightarrow> length r < length cs \<and> g2 \<noteq> []"
proof (induction c cs n rule: try_group1.induct)
  case (1 c cs n)
  show ?case
  proof (cases "match_rest (drop n cs)")
    case None
    with 1 show ?thesis
      by (subst (asm) (2) try_group1.simps) (auto split: if_splits)
  next
    case (Some a)
    obtain g r' where a: "a = (g, r')" by (cases a)
    from match_rest_shorter [of "drop n cs" g r'] Some a
    have "length r' < length (drop n cs)" and "g \<noteq> []" by simp_all
    with 1(2) Some a show ?thesis
      by (subst (asm) try_group1.simps) (auto split: if_splits)
  qed
qed

lemma match_at_shorter: "match_at prev s = Some (g1, g2, r) \<Longrightarrow> length r < length s"
  by (cases s) (auto simp: match_at_def split: if_splits dest: try_group1_shorter)

text \<open>
  \<^verbatim>\<open>pattern.findall(text)\<close>: the matches from left to right, each search resuming where
  the match before it ended, and one character further where no match starts.
\<close>

function findall :: "char option \<Rightarrow> string \<Rightarrow> (string \<times> string) list" where
  "findall prev [] = []"
| "findall prev (c # cs) =
     (case match_at prev (c # cs) of
        Some (g1, g2, r) \<Rightarrow> (g1, g2) # findall (Some (last g2)) r
      | None \<Rightarrow> findall (Some c) cs)"
  by pat_completeness auto
termination
proof (relation "measure (\<lambda>(p, s). length s)")
  show "wf (measure (\<lambda>(p, s). length s))" by simp
next
  fix prev :: "char option" and c cs x2 g1 y g2 r
  assume a: "match_at prev (c # cs) = Some x2" and b: "(g1, y) = x2" and c: "(g2, r) = y"
  have "match_at prev (c # cs) = Some (g1, g2, r)"
    unfolding c b by (rule a)
  then have "length r < length (c # cs)"
    by (rule match_at_shorter)
  then show "((Some (last g2), r), (prev, c # cs)) \<in> measure (\<lambda>(p, s). length s)"
    by simp
next
  fix prev :: "char option" and c cs
  show "((Some c, cs), (prev, c # cs)) \<in> measure (\<lambda>(p, s). length s)"
    by simp
qed

section \<open>The validity filter\<close>

text \<open>
  \<^verbatim>\<open>re.match\<close> of \<^verbatim>\<open>^(a|b|...)$\<close> under \<^verbatim>\<open>re.I\<close>: the name is one of the alternatives up
  to case, with \<^verbatim>\<open>$\<close> also holding in front of a final line feed.
\<close>

definition at_end :: "string \<Rightarrow> bool" where
  "at_end r = (r = [] \<or> r = [CHR 0x0A])"

definition match_whole_ci :: "string list \<Rightarrow> string \<Rightarrow> bool" where
  "match_whole_ci alts s =
     list_ex (\<lambda>kw. ci_eq kw (take (length kw) s) \<and> at_end (drop (length kw) s)) alts"

text \<open>
  \<^verbatim>\<open>re.match\<close> of \<^verbatim>\<open>.*(a|b|...).*\<close> under \<^verbatim>\<open>re.I\<close>: the dot stops at a line feed, so
  one of the alternatives occurs, up to case, in the first line of the name.
\<close>

definition match_contains_ci :: "string list \<Rightarrow> string \<Rightarrow> bool" where
  "match_contains_ci alts s =
     list_ex (\<lambda>kw. is_in (lower kw) (lower (takeWhile (\<lambda>c. c \<noteq> CHR 0x0A) s))) alts"

definition exclude_tokens :: "string list" where
  "exclude_tokens = [''vs'', ''odds'', ''Flag'']"

definition exclude_countries :: "string list" where
  "exclude_countries =
     [''United States'', ''England'', ''Brazil'', ''China'', ''Russia'',
      ''Dominican Republic'', ''Lithuania'', ''Cameroon'']"

definition exclude_keywords :: "string list" where
  "exclude_keywords =
     [''Title'', ''Bout'', ''Interim'', ''Women'', ''Lightweight'', ''Bantamweight'',
      ''Heavyweight'', ''Featherweight'', ''Light Heavyweight'', ''Middleweight'',
      ''Flyweight'', ''Fight Card'']"

text \<open>\<^verbatim>\<open>any(re.match(pattern, name, re.I) for pattern in exclude_patterns)\<close>.\<close>

definition excluded :: "string \<Rightarrow> bool" where
  "excluded name =
     (match_whole_ci exclude_tokens name \<or> match_whole_ci exclude_countries name
      \<or> match_contains_ci exclude_keywords name)"

text \<open>
  \<^verbatim>\<open>re.match(r'^[A-Z][a-zA-Z\s\-\']+$', name)\<close>: a capital and then one or more class
  characters up to the end (the line feed \<^verbatim>\<open>$\<close> allows at the end is in the class).
\<close>

definition proper_name :: "string \<Rightarrow> bool" where
  "proper_name name =
     (case name of
        [] \<Rightarrow> False
      | c # cs \<Rightarrow> is_upper_az c \<and> cs \<noteq> [] \<and> list_all name_char cs)"

definition valid_name :: "string \<Rightarrow> bool" where
  "valid_name name =
     (length name \<ge> 5 \<and> length name \<le> 40 \<and> \<not> excluded name \<and> proper_name name)"

section \<open>The aggregation\<close>

text \<open>
  \<^verbatim>\<open>seen_pairs\<close> is a dictionary; Python keeps its entries in insertion order, and an
  assignment to a key it holds replaces the value in place.  It is an association list
  written with \<^const>\<open>AList.update\<close>; the key, a sorted tuple of two strings, is a list.
\<close>

type_synonym fight = "string \<times> string"

type_synonym seen_pairs = "(string list \<times> fight) list"

definition pair_key :: "fight \<Rightarrow> string list" where
  "pair_key p =
     sort [normalize_name_for_matching (fst p), normalize_name_for_matching (snd p)]"

text \<open>The test of lines 119-120 between the new pair and a stored one.\<close>

definition same_fight :: "fight \<Rightarrow> fight \<Rightarrow> bool" where
  "same_fight p e =
     ((names_match (fst p) (fst e) \<and> names_match (snd p) (snd e))
      \<or> (names_match (fst p) (snd e) \<and> names_match (snd p) (fst e)))"

text \<open>The search loop: the key of the first stored pair that passes the test.\<close>

fun find_matched_key :: "seen_pairs \<Rightarrow> fight \<Rightarrow> string list option" where
  "find_matched_key [] p = None"
| "find_matched_key ((existing_key, existing_pair) # rest) p =
     (if same_fight p existing_pair then Some existing_key else find_matched_key rest p)"

definition unwanted_words :: "string list" where
  "unwanted_words = [''live'', ''round'', ''method'', ''card'', ''follow'', ''time'']"

definition has_unwanted :: "fight \<Rightarrow> bool" where
  "has_unwanted p =
     list_ex (\<lambda>w. is_in w (lower (fst p)) \<or> is_in w (lower (snd p))) unwanted_words"

definition word_count :: "fight \<Rightarrow> nat" where
  "word_count p = length (split (fst p)) + length (split (snd p))"

definition total_len :: "fight \<Rightarrow> nat" where
  "total_len p = length (fst p) + length (snd p)"

text \<open>Lines 145-151: whether the new pair replaces the stored one.\<close>

definition replaces :: "fight \<Rightarrow> fight \<Rightarrow> bool" where
  "replaces current existing =
     (if \<not> has_unwanted current \<and> has_unwanted existing then True
      else if has_unwanted current = has_unwanted existing
      then (if word_count current > word_count existing then True
            else if word_count current = word_count existing
                    \<and> total_len current > total_len existing then True
            else False)
      else False)"

text \<open>
  The \<^verbatim>\<open>else\<close> branch of line 128.  \<^verbatim>\<open>seen_pairs[matched_key]\<close> would raise KeyError
  on a key the dictionary does not hold; the key comes from the dictionary itself
  (lemma \<open>find_matched_key_stored\<close> below), and the model leaves the dictionary as it is
  there.
\<close>

definition merge_pair :: "seen_pairs \<Rightarrow> string list \<Rightarrow> fight \<Rightarrow> seen_pairs" where
  "merge_pair seen matched_key p =
     (case map_of seen matched_key of
        None \<Rightarrow> seen
      | Some existing \<Rightarrow> if replaces p existing then AList.update matched_key p seen else seen)"

text \<open>One round of the loop over the matches: clean, filter, then insert or merge.\<close>

definition cleaned :: "string \<times> string \<Rightarrow> fight" where
  "cleaned m = (clean_fighter_name (strip (fst m)), clean_fighter_name (strip (snd m)))"

definition valid_pair :: "fight \<Rightarrow> bool" where
  "valid_pair p = (valid_name (fst p) \<and> valid_name (snd p))"

definition add_pair :: "seen_pairs \<Rightarrow> fight \<Rightarrow> seen_pairs" where
  "add_pair seen p =
     (case find_matched_key seen p of
        None \<Rightarrow> AList.update (pair_key p) p seen
      | Some matched_key \<Rightarrow> merge_pair seen matched_key p)"

definition process_match :: "seen_pairs \<Rightarrow> string \<times> string \<Rightarrow> seen_pairs" where
  "process_match seen m = (if valid_pair (cleaned m) then add_pair seen (cleaned m) else seen)"

definition aggregate :: "(string \<times> string) list \<Rightarrow> seen_pairs" where
  "aggregate matches = foldl process_match [] matches"

text \<open>
  The function fetches the page and flattens it to text with two libraries; what it does
  with that text is modelled, with \<open>text_content\<close> as the input.
\<close>

definition get_fighter_pairs_from_ufc_event :: "string \<Rightarrow> fight list" where
  "get_fighter_pairs_from_ufc_event text_content = map snd (aggregate (findall None text_content))"

section \<open>The script\<close>

text \<open>
  The workbook that \<^verbatim>\<open>create_excel_file\<close> saves: the sheet's title and its rows, the
  header first.  What the script does is the lines it prints and the file it saves, if any.
\<close>

record workbook =
  title :: string
  sheet_rows :: "(string \<times> string) list"

record outcome =
  printed :: "string list"
  saved :: "(string \<times> workbook) option"

function decimal :: "nat \<Rightarrow> string" where
  "decimal n = (if n < 10 then [char_of (48 + n)] else decimal (n div 10) @ [char_of (48 + n mod 10)])"
  by pat_completeness auto
termination
  by (relation "measure id") auto

declare decimal.simps [simp del]

definition create_excel_file :: "fight list \<Rightarrow> string \<Rightarrow> outcome" where
  "create_excel_file fight_pairs filename =
     \<lparr>printed = [CHR 0x0A # ''Excel file created: '' @ filename],
      saved = Some (filename,
                \<lparr>title = ''Fight Card'', sheet_rows = (''fighter 1'', ''fighter 2'') # fight_pairs\<rparr>)\<rparr>"

definition script :: "string \<Rightarrow> string \<Rightarrow> outcome" where
  "script text_content output_file =
     (let fight_pairs = get_fighter_pairs_from_ufc_event text_content;
          listing = ''Fights found:'' # map (\<lambda>(fighter1, fighter2). fighter1 @ '' vs '' @ fighter2) fight_pairs
      in if fight_pairs \<noteq> []
         then (let made = create_excel_file fight_pairs output_file
               in \<lparr>printed = listing @ printed made
                              @ [''Total fights saved: '' @ decimal (length fight_pairs)],
                   saved = saved made\<rparr>)
         else \<lparr>printed = listing @ [''No fights found to save.''], saved = None\<rparr>)"

section \<open>Predicates of the properties\<close>

text \<open>
  The pairs that pass the filter, in the order of the scan: what the loop hands to the
  aggregation.
\<close>

definition valid_pairs :: "string \<Rightarrow> fight list" where
  "valid_pairs text_content = filter valid_pair (map cleaned (findall None text_content))"

text \<open>
  A captured group as the pattern allows it: a capital, then between 2 and 50 characters
  of the class, so between 3 and 51 characters in all.
\<close>

definition captured_shape :: "string \<Rightarrow> bool" where
  "captured_shape g =
     (case g of
        [] \<Rightarrow> False
      | c # cs \<Rightarrow> is_upper_az c \<and> list_all name_char cs \<and> 3 \<le> length g \<and> length g \<le> 51)"

text \<open>
  A string in which every whitespace character is a single space between two other
  characters, or in front of the first one.
\<close>

fun ws_normal :: "string \<Rightarrow> bool" where
  "ws_normal [] = True"
| "ws_normal [c] = (\<not> is_space c)"
| "ws_normal (c # d # r) = ((is_space c \<longrightarrow> c = CHR '' '' \<and> \<not> is_space d) \<and> ws_normal (d # r))"

text \<open>
  The dictionary's invariant: no key twice, and every entry stored under the key of its
  own pair.
\<close>

definition keyed :: "seen_pairs \<Rightarrow> bool" where
  "keyed seen = (distinct (map fst seen) \<and> list_all (\<lambda>(k, e). k = pair_key e) seen)"

text \<open>
  The markers the cleaner removes, as parts of a whitespace-normalised string: a rank
  marker is a hash, digits and a space; a prefix marker is a prefix keyword in any case
  and a space; a suffix marker is a space and a suffix keyword in any case.  The keywords
  are written out, in the order of the two lists of the source.
\<close>

definition rank_marker :: "string \<Rightarrow> bool" where
  "rank_marker r =
     (case r of
        [] \<Rightarrow> False
      | c # cs \<Rightarrow> c = CHR ''#'' \<and> cs \<noteq> [] \<and> last cs = CHR '' ''
                 \<and> butlast cs \<noteq> [] \<and> list_all is_digit (butlast cs))"

definition prefix_marker :: "string \<Rightarrow> bool" where
  "prefix_marker p =
     (p \<noteq> [] \<and> last p = CHR '' ''
      \<and> list_ex (\<lambda>kw. ci_eq kw (butlast p))
           [''Live now'', ''Live'', ''LIVE NOW'', ''LIVE'', ''Card'', ''Method'', ''Main Card'', ''Main''])"

definition suffix_marker :: "string \<Rightarrow> bool" where
  "suffix_marker s =
     (case s of
        [] \<Rightarrow> False
      | c # k \<Rightarrow> c = CHR '' ''
                 \<and> list_ex (\<lambda>kw. ci_eq kw k)
                      [''Round'', ''Round Time'', ''Time'', ''Follow live'', ''Follow'',
                       ''LIVE NOW'', ''LIVE'', ''now''])"

text \<open>
  A plain name is whitespace-normalised and not empty, and it cannot be taken for a
  marker from either end: it does not start with a hash, its first word is not the
  champion letter and, up to case, none of the words of the prefix keywords, and its last
  word is, up to case, none of the words of the suffix keywords.
\<close>

definition front_words :: "string list" where
  "front_words = [''live'', ''now'', ''card'', ''method'', ''main'']"

definition back_words :: "string list" where
  "back_words = [''round'', ''time'', ''follow'', ''live'', ''now'']"

definition plain_name :: "string \<Rightarrow> bool" where
  "plain_name y =
     (y \<noteq> [] \<and> sub_ws (strip y) = y \<and> hd y \<noteq> CHR ''#'' \<and> hd (split y) \<noteq> ''C''
      \<and> lower (hd (split y)) \<notin> set front_words \<and> lower (last (split y)) \<notin> set back_words)"

section \<open>The specification's wording\<close>

text \<open>
  The matcher as the specification words it: equal up to case, or one lower-cased name
  inside the other and the last whitespace-delimited token of the shorter name equal to
  that of the longer one, both lower-cased.  A name without a token has no last token, so
  the equation asks for a token on both sides.  Names of equal length are taken in the
  given order here and in the opposite order in the code.
\<close>

definition claimed_names_match :: "string \<Rightarrow> string \<Rightarrow> bool" where
  "claimed_names_match a b =
     (lower a = lower b
      \<or> ((is_in (lower a) (lower b) \<or> is_in (lower b) (lower a))
         \<and> (let shorter = (if length a \<le> length b then a else b);
                 longer = (if length a \<le> length b then b else a)
             in split shorter \<noteq> [] \<and> split longer \<noteq> []
                \<and> lower (last (split shorter)) = lower (last (split longer)))))"

text \<open>
  The replacement rule as the specification words it: the number of noise words that
  occur in either name is compared first, and fewer wins outright for either side; then
  the word count, then the character count.
\<close>

definition noise_count :: "fight \<Rightarrow> nat" where
  "noise_count p =
     length (filter (\<lambda>w. is_in w (lower (fst p)) \<or> is_in w (lower (snd p))) unwanted_words)"

definition claimed_replaces :: "fight \<Rightarrow> fight \<Rightarrow> bool" where
  "claimed_replaces current existing =
     (if noise_count current < noise_count existing then True
      else if noise_count existing < noise_count current then False
      else if word_count current > word_count existing then True
      else if word_count current = word_count existing
              \<and> total_len current > total_len existing then True
      else False)"

section \<open>Character classes on character literals\<close>

text \<open>
  A character is eight bits, \<open>b0\<close> the lowest.  Each class is decided by the bits alone,
  which is how the classes are evaluated on the characters of a concrete text; every
  equation is checked on all 256 characters against the definition by code point.
\<close>

lemma is_space_Char:
  "is_space (Char b0 b1 b2 b3 b4 b5 b6 b7) \<longleftrightarrow>
     (if b7 then (\<not> b6 \<and> (if b5 then (\<not> b4 \<and> (\<not> b3 \<and> (\<not> b2
       \<and> (\<not> b1 \<and> \<not> b0)))) else (\<not> b4 \<and> (\<not> b3 \<and> (b2
       \<and> (\<not> b1 \<and> b0)))))) else (\<not> b6 \<and> (if b5 then (\<not> b4 \<and>
       (\<not> b3 \<and> (\<not> b2 \<and> (\<not> b1 \<and> \<not> b0)))) else (if b4 then (b3
       \<and> b2) else (b3 \<and> (if b2 then \<not> b1 else (b1 \<or> b0)))))))"
  by (cases b0; cases b1; cases b2; cases b3; cases b4; cases b5; cases b6; cases b7)
     (simp_all add: is_space_def is_upper_az_def is_lower_az_def is_digit_def is_word_def
        in_range_def py_ord_def)

lemma is_upper_az_Char:
  "is_upper_az (Char b0 b1 b2 b3 b4 b5 b6 b7) \<longleftrightarrow>
     (\<not> b7 \<and> (b6 \<and> (\<not> b5 \<and> (if b4 then (b3 \<longrightarrow> (\<not>
       b2 \<and> (b1 \<longrightarrow> \<not> b0))) else (b3 \<or> (b2 \<or> (b1 \<or>
       b0)))))))"
  by (cases b0; cases b1; cases b2; cases b3; cases b4; cases b5; cases b6; cases b7)
     (simp_all add: is_space_def is_upper_az_def is_lower_az_def is_digit_def is_word_def
        in_range_def py_ord_def)

lemma is_lower_az_Char:
  "is_lower_az (Char b0 b1 b2 b3 b4 b5 b6 b7) \<longleftrightarrow>
     (\<not> b7 \<and> (b6 \<and> (b5 \<and> (if b4 then (b3 \<longrightarrow> (\<not> b2
       \<and> (b1 \<longrightarrow> \<not> b0))) else (b3 \<or> (b2 \<or> (b1 \<or> b0)))))))"
  by (cases b0; cases b1; cases b2; cases b3; cases b4; cases b5; cases b6; cases b7)
     (simp_all add: is_space_def is_upper_az_def is_lower_az_def is_digit_def is_word_def
        in_range_def py_ord_def)

lemma is_digit_Char:
  "is_digit (Char b0 b1 b2 b3 b4 b5 b6 b7) \<longleftrightarrow>
     (\<not> b7 \<and> (\<not> b6 \<and> (b5 \<and> (b4 \<and> (b3 \<longrightarrow> (\<not> b2 \<and> \<not> b1))))))"
  by (cases b0; cases b1; cases b2; cases b3; cases b4; cases b5; cases b6; cases b7)
     (simp_all add: is_space_def is_upper_az_def is_lower_az_def is_digit_def is_word_def
        in_range_def py_ord_def)

lemma is_word_Char:
  "is_word (Char b0 b1 b2 b3 b4 b5 b6 b7) \<longleftrightarrow>
     (if b7 then (if b6 then (b4 \<longrightarrow> (b3 \<or> (b2 \<longrightarrow> (b1
       \<longrightarrow> \<not> b0)))) else (b5 \<and> (if b4 then (if b3 then (if b2 then (b1
       \<longrightarrow> \<not> b0) else (if b1 then \<not> b0 else b0)) else (if b2 then
       (\<not> b1 \<and> b0) else b1)) else (b3 \<and> (\<not> b2 \<and> (b1 \<and> \<not>
       b0)))))) else (if b6 then (if b5 then (if b4 then (b3 \<longrightarrow> (\<not> b2
       \<and> (b1 \<longrightarrow> \<not> b0))) else (b3 \<or> (b2 \<or> (b1 \<or> b0)))) else
       (if b4 then (b3 \<longrightarrow> (if b2 then (b1 \<and> b0) else (b1 \<longrightarrow>
       \<not> b0))) else (b3 \<or> (b2 \<or> (b1 \<or> b0))))) else (b5 \<and> (b4 \<and> (b3
       \<longrightarrow> (\<not> b2 \<and> \<not> b1))))))"
  by (cases b0; cases b1; cases b2; cases b3; cases b4; cases b5; cases b6; cases b7)
     (simp_all add: is_space_def is_upper_az_def is_lower_az_def is_digit_def is_word_def
        in_range_def py_ord_def)

lemma lower_char_Char:
  "lower_char (Char b0 b1 b2 b3 b4 b5 b6 b7) =
     (if (if b7 then (b6 \<and> (\<not> b5 \<and> (b4 \<longrightarrow> (b2 \<longrightarrow>
       (b1 \<longrightarrow> \<not> b0))))) else (b6 \<and> (\<not> b5 \<and> (if b4 then (b3
       \<longrightarrow> (\<not> b2 \<and> (b1 \<longrightarrow> \<not> b0))) else (b3 \<or>
       (b2 \<or> (b1 \<or> b0)))))))
      then Char b0 b1 b2 b3 b4 True b6 b7 else Char b0 b1 b2 b3 b4 b5 b6 b7)"
  by (cases b0; cases b1; cases b2; cases b3; cases b4; cases b5; cases b6; cases b7)
     (simp_all add: lower_char_def is_upper_az_def in_range_def py_ord_def char_of_def bit_0)

lemmas char_class_simps =
  is_space_Char is_upper_az_Char is_lower_az_Char is_digit_Char is_word_Char lower_char_Char
  name_char_def

section \<open>Lower case and tokens\<close>

lemma py_ord_less: "py_ord c < 256"
  by (simp add: py_ord_def)

lemma is_space_lower_char: "is_space (lower_char c) = is_space c"
proof -
  have "py_ord c < 256" by (rule py_ord_less)
  then show ?thesis
    unfolding lower_char_def is_space_def is_upper_az_def in_range_def
    by (auto simp: py_ord_def)
qed

lemma takeWhile_lower: "takeWhile (\<lambda>x. \<not> is_space x) (lower s) = lower (takeWhile (\<lambda>x. \<not> is_space x) s)"
  by (induction s) (simp_all add: lower_def is_space_lower_char)

lemma dropWhile_lower: "dropWhile (\<lambda>x. \<not> is_space x) (lower s) = lower (dropWhile (\<lambda>x. \<not> is_space x) s)"
  by (induction s) (simp_all add: lower_def is_space_lower_char)

lemma dropWhile_space_lower: "dropWhile is_space (lower s) = lower (dropWhile is_space s)"
  by (induction s) (simp_all add: lower_def is_space_lower_char)

lemma split_lower: "split (lower s) = map lower (split s)"
proof (induction s rule: split.induct)
  case (1 s)
  show ?case
  proof (cases "dropWhile is_space s")
    case Nil
    then have "dropWhile is_space (lower s) = []"
      by (subst dropWhile_space_lower) (simp add: lower_def)
    with Nil show ?thesis
      by (simp only: split.simps [of s] split.simps [of "lower s"] list.case list.map)
  next
    case (Cons c cs)
    then have l: "dropWhile is_space (lower s) = lower_char c # lower cs"
      by (subst dropWhile_space_lower) (simp add: lower_def)
    have ih: "split (lower (dropWhile (\<lambda>x. \<not> is_space x) cs))
                = map lower (split (dropWhile (\<lambda>x. \<not> is_space x) cs))"
      using 1 [OF Cons] .
    have tw: "takeWhile (\<lambda>x. \<not> is_space x) (lower_char c # lower cs)
                = lower (takeWhile (\<lambda>x. \<not> is_space x) (c # cs))"
      using takeWhile_lower [of "c # cs"] by (simp add: lower_def)
    show ?thesis
      by (simp only: split.simps [of s] split.simps [of "lower s"] Cons l list.case list.map
            tw dropWhile_lower ih)
  qed
qed

section \<open>The matcher and the grouping key\<close>

lemma names_match_iff:
  "names_match a b \<longleftrightarrow>
     lower a = lower b
     \<or> ((is_in (lower a) (lower b) \<or> is_in (lower b) (lower a))
        \<and> split a \<noteq> [] \<and> split b \<noteq> []
        \<and> lower (last (split a)) = lower (last (split b)))"
  unfolding names_match_def Let_def
  by (cases "length a < length b") (auto simp: split_lower last_map)

lemma normalize_eq_of_lower_eq:
  assumes "lower a = lower b"
  shows "normalize_name_for_matching a = normalize_name_for_matching b"
proof -
  from assms have m: "map lower (split a) = map lower (split b)"
    by (simp only: split_lower [symmetric])
  then have e: "split a = [] \<longleftrightarrow> split b = []"
    by (metis map_is_Nil_conv)
  show ?thesis
  proof (cases "split a = []")
    case True
    with e assms show ?thesis by (simp add: normalize_name_for_matching_def)
  next
    case False
    with e have nb: "split b \<noteq> []" by simp
    from m have "last (map lower (split a)) = last (map lower (split b))" by simp
    with False nb have "lower (last (split a)) = lower (last (split b))"
      by (simp add: last_map)
    with False nb show ?thesis
      by (simp add: normalize_name_for_matching_def Let_def Suc_le_eq)
  qed
qed

lemma names_match_normalize:
  assumes "names_match a b"
  shows "normalize_name_for_matching a = normalize_name_for_matching b"
proof -
  from assms consider (same) "lower a = lower b"
    | (surname) "split a \<noteq> []" "split b \<noteq> []" "lower (last (split a)) = lower (last (split b))"
    unfolding names_match_iff by blast
  then show ?thesis
  proof cases
    case same
    then show ?thesis by (rule normalize_eq_of_lower_eq)
  next
    case surname
    then show ?thesis
      by (simp add: normalize_name_for_matching_def Let_def Suc_le_eq)
  qed
qed

section \<open>The shape of the captured groups\<close>

lemma run_take:
  assumes "k \<le> length (takeWhile P (take m cs))"
  shows "list_all P (take k cs) \<and> length (take k cs) = k \<and> k \<le> m"
proof -
  let ?run = "takeWhile P (take m cs)"
  have len: "length ?run \<le> length (take m cs)" by (rule length_takeWhile_le)
  then have km: "k \<le> m" and kl: "k \<le> length cs" using assms by simp_all
  have "take k (?run @ dropWhile P (take m cs)) = take k ?run"
    using assms by (simp del: takeWhile_dropWhile_id)
  then have "take k ?run = take k (take m cs)"
    by (simp only: takeWhile_dropWhile_id)
  also have "\<dots> = take k cs" using km by (simp add: min_absorb1)
  finally have t: "take k cs = take k ?run" by simp
  have "set (take k ?run) \<subseteq> set ?run" by (rule set_take_subset)
  then have "\<forall>x\<in>set (take k cs). P x"
    unfolding t by (auto dest: set_takeWhileD)
  then show ?thesis using km kl by (simp add: list_all_iff)
qed


lemma shape_of_run:
  assumes "is_upper_az c" and "2 \<le> k" and "k \<le> length (takeWhile name_char (take 50 cs))"
  shows "captured_shape (c # take k cs)"
  using run_take [OF assms(3)] assms(1,2) by (simp add: captured_shape_def)

lemma try_group2_shape:
  "try_group2 c cs k = Some (g, r) \<Longrightarrow> is_upper_az c
     \<Longrightarrow> k \<le> length (takeWhile name_char (take 50 cs)) \<Longrightarrow> captured_shape g"
proof (induction c cs k rule: try_group2.induct)
  case (1 c cs k)
  show ?case
  proof (cases "k < 2")
    case True
    with 1(2) show ?thesis by (subst (asm) try_group2.simps) simp
  next
    case False
    show ?thesis
    proof (cases "at_boundary (Some (last (c # take k cs))) (drop k cs)")
      case True
      with False 1(2) have "g = c # take k cs"
        by (subst (asm) try_group2.simps) simp
      with False 1(3,4) show ?thesis by (simp add: shape_of_run)
    next
      case nb: False
      with False 1(2) have "try_group2 c cs (k - 1) = Some (g, r)"
        by (subst (asm) try_group2.simps) simp
      with 1(1) [OF False nb] 1(3,4) show ?thesis by simp
    qed
  qed
qed

lemma match_rest_shape: "match_rest r = Some (g, r') \<Longrightarrow> captured_shape g"
proof -
  assume "match_rest r = Some (g, r')"
  from match_rest_SomeD [OF this] obtain c cs where
    "is_upper_az c" "try_group2 c cs (length (takeWhile name_char (take 50 cs))) = Some (g, r')"
    by blast
  then show ?thesis by (auto intro: try_group2_shape)
qed

lemma try_group1_shape:
  "try_group1 c cs n = Some (g1, g2, r) \<Longrightarrow> is_upper_az c
     \<Longrightarrow> n \<le> length (takeWhile name_char (take 50 cs))
     \<Longrightarrow> captured_shape g1 \<and> captured_shape g2"
proof (induction c cs n rule: try_group1.induct)
  case (1 c cs n)
  show ?case
  proof (cases "n < 2")
    case True
    with 1(2) show ?thesis by (subst (asm) try_group1.simps) simp
  next
    case False
    show ?thesis
    proof (cases "match_rest (drop n cs)")
      case None
      with False 1(2) have "try_group1 c cs (n - 1) = Some (g1, g2, r)"
        by (subst (asm) try_group1.simps) simp
      with 1(1) [OF False None] 1(3,4) show ?thesis by simp
    next
      case (Some a)
      obtain g r' where a: "a = (g, r')" by (cases a)
      with False Some 1(2) have e: "g1 = c # take n cs" "g2 = g"
        by (subst (asm) try_group1.simps, simp)+
      from Some a have "captured_shape g" by (auto intro: match_rest_shape)
      with e False 1(3,4) show ?thesis by (simp add: shape_of_run)
    qed
  qed
qed

lemma match_at_shape:
  "match_at prev s = Some (g1, g2, r) \<Longrightarrow> captured_shape g1 \<and> captured_shape g2"
  by (cases s) (auto simp: match_at_def split: if_splits dest: try_group1_shape)

section \<open>The substitutions on a marked name\<close>

lemma space_is_space: "is_space (CHR '' '')" and space_not_digit: "\<not> is_digit (CHR '' '')"
  by (simp_all add: char_class_simps)

lemma no_leading_space: "takeWhile is_space y = [] \<Longrightarrow> dropWhile is_space y = y"
  by (cases y) (auto split: if_splits)

lemma ci_eq_length: "ci_eq kw k \<Longrightarrow> length k = length kw"
  unfolding ci_eq_def lower_def by (metis length_map)

lemma sub_rank_marker:
  assumes "ds \<noteq> []" and "list_all is_digit ds" and "takeWhile is_space y = []"
  shows "sub_rank (CHR ''#'' # ds @ CHR '' '' # y) = y"
proof -
  from assms(2) have d: "\<And>x. x \<in> set ds \<Longrightarrow> is_digit x" by (simp add: list_all_iff)
  have t: "takeWhile is_digit (ds @ CHR '' '' # y) = ds"
    using d by (simp add: takeWhile_append2 space_not_digit)
  have r: "dropWhile is_digit (ds @ CHR '' '' # y) = CHR '' '' # y"
    using d by (simp add: dropWhile_append2 space_not_digit)
  show ?thesis
    unfolding sub_rank_def
    by (simp only: list.case Let_def t r) (simp add: assms(1) space_is_space no_leading_space [OF assms(3)])
qed

lemma sub_prefix_keyword:
  assumes "ci_eq kw k" and "takeWhile is_space y = []"
  shows "sub_prefix kw (k @ CHR '' '' # y) = y"
proof -
  from ci_eq_length [OF assms(1)] have l: "length kw = length k" by simp
  show ?thesis
    unfolding sub_prefix_def Let_def l
    by (simp add: assms(1) space_is_space no_leading_space [OF assms(2)])
qed

lemma sub_suffix_keyword:
  assumes "ci_eq kw k" and "CHR 0x0A \<notin> set k" and "takeWhile is_space (rev y) = []"
  shows "sub_suffix kw (y @ CHR '' '' # k) = y"
proof -
  let ?s = "y @ CHR '' '' # k"
  from ci_eq_length [OF assms(1)] have l: "length kw = length k" by simp
  have "last ?s \<noteq> CHR 0x0A"
    using assms(2) by (cases k rule: rev_cases) auto
  then have tl: "(if ?s \<noteq> [] \<and> last ?s = CHR 0x0A then [CHR 0x0A] else []) = []"
    by simp
  have pre: "take (length ?s - length k) ?s = y @ [CHR '' '']" by simp
  have w: "drop (length ?s - length k) ?s = k" by simp
  have d: "dropWhile is_space (rev y) = rev y"
    using assms(3) by (rule no_leading_space)
  show ?thesis
    unfolding sub_suffix_def Let_def tl l
    by (simp only: list.size append_Nil2 diff_zero take_all order_refl pre w)
       (simp add: assms(1) space_is_space d)
qed

section \<open>Whitespace normal form\<close>

lemma ws_normal_last: "ws_normal u \<Longrightarrow> u \<noteq> [] \<Longrightarrow> \<not> is_space (last u)"
  by (induction u rule: ws_normal.induct) auto

lemma sub_ws_hd: "t \<noteq> [] \<Longrightarrow> \<not> is_space (hd t) \<Longrightarrow> sub_ws t \<noteq> [] \<and> hd (sub_ws t) = hd t"
  by (cases t) simp_all

lemma ws_normal_sub_ws: "t = [] \<or> \<not> is_space (last t) \<Longrightarrow> ws_normal (sub_ws t)"
proof (induction t rule: sub_ws.induct)
  case 1
  then show ?case by simp
next
  case (2 c cs)
  show ?case
  proof (cases "is_space c")
    case True
    let ?d = "dropWhile is_space cs"
    from True 2(3) have csne: "cs \<noteq> []" and lc: "\<not> is_space (last cs)"
      by (auto split: if_splits)
    have dne: "?d \<noteq> []"
    proof
      assume "?d = []"
      then have "\<forall>x\<in>set cs. is_space x" by (simp add: dropWhile_eq_Nil_conv)
      with csne lc show False using last_in_set by blast
    qed
    then have hd: "\<not> is_space (hd ?d)" by (rule hd_dropWhile)
    have "last ?d = last cs"
      using dne by (metis last_appendR takeWhile_dropWhile_id)
    with lc have "?d = [] \<or> \<not> is_space (last ?d)" by simp
    from 2(1) [OF True this] have n: "ws_normal (sub_ws ?d)" .
    from sub_ws_hd [OF dne hd] obtain e r where er: "sub_ws ?d = e # r" and "e = hd ?d"
      by (cases "sub_ws ?d") auto
    with hd have "\<not> is_space e" by simp
    with n er True show ?thesis by simp
  next
    case False
    show ?thesis
    proof (cases cs)
      case Nil
      with False show ?thesis by simp
    next
      case (Cons d r)
      with 2(3) have "cs = [] \<or> \<not> is_space (last cs)" by simp
      from 2(2) [OF False this] have n: "ws_normal (sub_ws cs)" .
      from Cons have "sub_ws cs \<noteq> []" by (auto split: if_splits)
      then obtain e r' where "sub_ws cs = e # r'" by (cases "sub_ws cs") auto
      with n False show ?thesis by simp
    qed
  qed
qed

lemma strip_ends: "strip z = [] \<or> (\<not> is_space (hd (strip z)) \<and> \<not> is_space (last (strip z)))"
proof (cases "strip z = []")
  case True
  then show ?thesis by simp
next
  case False
  let ?w = "dropWhile is_space z"
  let ?v = "dropWhile is_space (rev ?w)"
  from False have vne: "?v \<noteq> []" by (simp add: strip_def)
  then have "\<not> is_space (hd ?v)" by (rule hd_dropWhile)
  then have l: "\<not> is_space (last (strip z))" using vne by (simp add: strip_def last_rev)
  have wne: "?w \<noteq> []"
  proof
    assume "?w = []"
    then have "?v = []" by (simp only: rev.simps dropWhile.simps)
    with vne show False by simp
  qed
  have "last ?v = last (rev ?w)"
    using vne by (metis last_appendR takeWhile_dropWhile_id)
  then have "hd (strip z) = hd ?w" using vne wne by (simp add: strip_def hd_rev last_rev)
  moreover have "\<not> is_space (hd ?w)" using wne by (rule hd_dropWhile)
  ultimately show ?thesis using l by simp
qed

lemma foldl_fixed: "\<forall>kw\<in>set kws. f kw y = y \<Longrightarrow> foldl (\<lambda>n kw. f kw n) y kws = y"
  by (induction kws) simp_all

section \<open>The cleaner on a marked name\<close>

lemma split_Nil: "split [] = []"
  by (simp add: split.simps)

lemma split_append_space:
  "is_space c \<Longrightarrow> split (a @ c # b) = split a @ split b"
proof (induction a rule: split.induct)
  case (1 a)
  show ?case
  proof (cases "dropWhile is_space a")
    case Nil
    then have all: "\<forall>x\<in>set a. is_space x" by (simp add: dropWhile_eq_Nil_conv)
    then have "dropWhile is_space (a @ c # b) = dropWhile is_space b"
      using 1(2) by (simp add: dropWhile_append2)
    then have "split (a @ c # b) = split b"
      by (simp only: split.simps [of "a @ c # b"] split.simps [of b])
    moreover from Nil have "split a = []" by (simp only: split.simps [of a] list.case)
    ultimately show ?thesis by simp
  next
    case (Cons x xs)
    let ?w = "takeWhile (\<lambda>x. \<not> is_space x) (x # xs)"
    let ?r = "dropWhile (\<lambda>x. \<not> is_space x) xs"
    from Cons have sa: "split a = ?w # split ?r"
      by (simp only: split.simps [of a] list.case)
    have "dropWhile is_space a = x # xs \<Longrightarrow> dropWhile is_space (a @ c # b) = (x # xs) @ c # b"
      by (induction a) (auto split: if_splits)
    with Cons have d: "dropWhile is_space (a @ c # b) = x # (xs @ c # b)" by simp
    have tw: "takeWhile (\<lambda>x. \<not> is_space x) (x # (xs @ c # b)) = ?w"
      using 1(2) by (induction xs arbitrary: x) auto
    have dw: "dropWhile (\<lambda>x. \<not> is_space x) (xs @ c # b) = ?r @ c # b"
      using 1(2) by (induction xs) auto
    from d have "split (a @ c # b) = ?w # split (?r @ c # b)"
      by (simp only: split.simps [of "a @ c # b"] list.case tw dw)
    also have "split (?r @ c # b) = split ?r @ split b"
      using 1(1) [OF Cons 1(2)] .
    finally show ?thesis using sa by simp
  qed
qed

lemma split_space_Cons: "is_space c \<Longrightarrow> split (c # s) = split s"
  using split_append_space [of c "[]" s] by (simp add: split_Nil)

lemma prefix_match_tokens:
  assumes "ci_eq kw (take (length kw) s)" and "takeWhile is_space (drop (length kw) s) \<noteq> []"
  shows "take (length (split kw)) (map lower (split s)) = map lower (split kw)"
proof -
  let ?k = "take (length kw) s"
  from assms(2) obtain c r where r: "drop (length kw) s = c # r" and c: "is_space c"
    by (cases "drop (length kw) s") (auto split: if_splits)
  have "s = ?k @ c # r" using r by (metis append_take_drop_id)
  then have "split s = split ?k @ split r"
    using split_append_space [OF c, of ?k r] by simp
  moreover have "map lower (split ?k) = map lower (split kw)"
    using assms(1) by (simp add: ci_eq_def split_lower [symmetric])
  ultimately have "map lower (split s) = map lower (split kw) @ map lower (split r)" by simp
  then show ?thesis by simp
qed

lemma sub_prefix_unchanged:
  "take (length (split kw)) (map lower (split s)) \<noteq> map lower (split kw) \<Longrightarrow> sub_prefix kw s = s"
  using prefix_match_tokens [of kw s] by (auto simp: sub_prefix_def Let_def)

lemma suffix_match_tokens:
  assumes "ci_eq kw (drop (length s - length kw) s)"
    and "takeWhile is_space (rev (take (length s - length kw) s)) \<noteq> []"
  shows "take (length (split kw)) (rev (map lower (split s))) = rev (map lower (split kw))"
proof -
  let ?w = "drop (length s - length kw) s"
  let ?p = "take (length s - length kw) s"
  from assms(2) obtain c r where r: "rev ?p = c # r" and c: "is_space c"
    by (cases "rev ?p") (auto split: if_splits)
  then have "?p = rev r @ [c]" by (metis rev_rev_ident rev.simps(2))
  then have "s = rev r @ c # ?w" by (metis append_take_drop_id append_Cons append_Nil append_assoc)
  then have "split s = split (rev r) @ split ?w"
    using split_append_space [OF c, of "rev r" ?w] by simp
  moreover have "map lower (split ?w) = map lower (split kw)"
    using assms(1) by (simp add: ci_eq_def split_lower [symmetric])
  ultimately have "rev (map lower (split s)) = rev (map lower (split kw)) @ rev (map lower (split (rev r)))"
    by simp
  then show ?thesis by simp
qed

lemma newline_is_space: "is_space (CHR 0x0A)"
  by (simp add: char_class_simps)

lemma sub_suffix_unchanged:
  assumes "s = [] \<or> \<not> is_space (last s)"
    and "take (length (split kw)) (rev (map lower (split s))) \<noteq> rev (map lower (split kw))"
  shows "sub_suffix kw s = s"
proof -
  from assms(1) newline_is_space
  have t: "(if s \<noteq> [] \<and> last s = CHR 0x0A then [CHR 0x0A] else []) = []" by auto
  have b: "take (length s - length ([] :: string)) s = s" by simp
  from suffix_match_tokens [of kw s] assms(2)
  have "\<not> (ci_eq kw (drop (length s - length kw) s)
           \<and> takeWhile is_space (rev (take (length s - length kw) s)) \<noteq> [])"
    by blast
  then show ?thesis
    unfolding sub_suffix_def Let_def t b by (simp only: if_False)
qed

lemma sub_rank_unchanged: "s = [] \<or> hd s \<noteq> CHR ''#'' \<Longrightarrow> sub_rank s = s"
  by (cases s) (auto simp: sub_rank_def Let_def)

lemma sub_champion_unchanged:
  assumes "\<forall>ts. split s \<noteq> ''C'' # ts"
  shows "sub_champion s = s"
proof (cases s)
  case Nil
  then show ?thesis by (simp add: sub_champion_def)
next
  case (Cons c cs)
  show ?thesis
  proof (cases "c = CHR ''C'' \<and> takeWhile is_space cs \<noteq> []")
    case False
    with Cons show ?thesis by (auto simp: sub_champion_def)
  next
    case True
    then obtain d r where cs: "cs = d # r" and d: "is_space d"
      by (cases cs) (auto split: if_splits)
    have "split (''C'' @ d # r) = split ''C'' @ split r"
      using d by (rule split_append_space)
    moreover have "split ''C'' = [''C'']"
      by (simp add: split.simps char_class_simps)
    ultimately have "split s = ''C'' # split r" using Cons cs True by simp
    with assms show ?thesis by blast
  qed
qed

lemma sub_champion_marker:
  "takeWhile is_space z = [] \<Longrightarrow> sub_champion (CHR ''C'' # CHR '' '' # z) = z"
  by (simp add: sub_champion_def space_is_space no_leading_space)

lemma keyword_lower:
  "lower ''Live now'' = ''live now''"
  "lower ''Live'' = ''live''"
  "lower ''LIVE NOW'' = ''live now''"
  "lower ''LIVE'' = ''live''"
  "lower ''Card'' = ''card''"
  "lower ''Method'' = ''method''"
  "lower ''Main Card'' = ''main card''"
  "lower ''Main'' = ''main''"
  "lower ''Round'' = ''round''"
  "lower ''Round Time'' = ''round time''"
  "lower ''Time'' = ''time''"
  "lower ''Follow live'' = ''follow live''"
  "lower ''Follow'' = ''follow''"
  "lower ''now'' = ''now''"
  by (simp_all add: lower_def char_class_simps)

lemma keyword_words:
  "split ''live now'' = [''live'', ''now'']"
  "split ''live'' = [''live'']"
  "split ''card'' = [''card'']"
  "split ''method'' = [''method'']"
  "split ''main card'' = [''main'', ''card'']"
  "split ''main'' = [''main'']"
  "split ''round'' = [''round'']"
  "split ''round time'' = [''round'', ''time'']"
  "split ''time'' = [''time'']"
  "split ''follow live'' = [''follow'', ''live'']"
  "split ''follow'' = [''follow'']"
  "split ''now'' = [''now'']"
  by (simp_all add: split.simps char_class_simps)

lemma sub_prefix_unchanged_lower:
  "take (length (split (lower kw))) (map lower (split s)) \<noteq> split (lower kw) \<Longrightarrow> sub_prefix kw s = s"
  by (rule sub_prefix_unchanged) (simp add: split_lower)

lemma sub_suffix_unchanged_lower:
  "s = [] \<or> \<not> is_space (last s)
   \<Longrightarrow> take (length (split (lower kw))) (rev (map lower (split s))) \<noteq> rev (split (lower kw))
   \<Longrightarrow> sub_suffix kw s = s"
  by (rule sub_suffix_unchanged) (simp_all add: split_lower)

lemma split_first_word:
  assumes "s \<noteq> []" and "\<not> is_space (hd s)"
  shows "split s \<noteq> []"
proof -
  from assms obtain c cs where "dropWhile is_space s = c # cs" by (cases s) auto
  then show ?thesis by (simp only: split.simps [of s] list.case) simp
qed

lemma prefix_fold_plain:
  assumes "split z = t # ts" and "lower t \<notin> set front_words"
  shows "foldl (\<lambda>n kw. sub_prefix kw n) z prefix_keywords = z"
proof (rule foldl_fixed, rule ballI)
  fix kw assume "kw \<in> set prefix_keywords"
  then show "sub_prefix kw z = z"
    using assms
    by (auto simp: prefix_keywords_def front_words_def keyword_lower keyword_words
          intro!: sub_prefix_unchanged_lower)
qed


lemma sub_prefix_plain:
  assumes "split z = t # ts" and "lower t \<notin> set front_words" and "kw \<in> set prefix_keywords"
  shows "sub_prefix kw z = z"
  using assms
  by (auto simp: prefix_keywords_def front_words_def keyword_lower keyword_words
        intro!: sub_prefix_unchanged_lower)

lemma prefix_fold_marked:
  assumes z: "split z = t # ts" "lower t \<notin> set front_words" "takeWhile is_space z = []"
    and k: "list_ex (\<lambda>kw. ci_eq kw k)
              [''Live now'', ''Live'', ''LIVE NOW'', ''LIVE'', ''Card'', ''Method'', ''Main Card'', ''Main'']"
  shows "foldl (\<lambda>n kw. sub_prefix kw n) (k @ CHR '' '' # z) prefix_keywords = z"
proof -
  let ?s = "k @ CHR '' '' # z"
  have A: "sub_prefix kw ?s = z" if "lower kw = lower k" for kw
    using that z(3) by (simp add: sub_prefix_keyword ci_eq_def)
  have tok: "map lower (split ?s) = split (lower k) @ lower t # map lower ts"
    using split_append_space [OF space_is_space, of k z] z(1) by (simp add: split_lower)
  have B: "sub_prefix kw ?s = ?s"
    if "take (length (split (lower kw))) (split (lower k) @ lower t # map lower ts) \<noteq> split (lower kw)"
    for kw
    using that by (intro sub_prefix_unchanged_lower) (simp add: tok)
  have C: "sub_prefix kw z = z" if "kw \<in> set prefix_keywords" for kw
    using z(1,2) that by (rule sub_prefix_plain)
  from k consider "lower k = ''live now''" | "lower k = ''live''" | "lower k = ''card''"
    | "lower k = ''method''" | "lower k = ''main card''" | "lower k = ''main''"
    by (auto simp: ci_eq_def keyword_lower)
  then show ?thesis
  proof cases
    case 1
    then show ?thesis
      using z(2)
      by (simp add: prefix_keywords_def A B C keyword_lower keyword_words front_words_def)
  next
    case 2
    then show ?thesis
      using z(2)
      by (simp add: prefix_keywords_def A B C keyword_lower keyword_words front_words_def)
  next
    case 3
    then show ?thesis
      using z(2)
      by (simp add: prefix_keywords_def A B C keyword_lower keyword_words front_words_def)
  next
    case 4
    then show ?thesis
      using z(2)
      by (simp add: prefix_keywords_def A B C keyword_lower keyword_words front_words_def)
  next
    case 5
    then show ?thesis
      using z(2)
      by (simp add: prefix_keywords_def A B C keyword_lower keyword_words front_words_def)
  next
    case 6
    then show ?thesis
      using z(2)
      by (simp add: prefix_keywords_def A B C keyword_lower keyword_words front_words_def)
  qed
qed


lemma sub_suffix_plain:
  assumes "y = [] \<or> \<not> is_space (last y)" and "rev (split y) = t # ts"
    and "lower t \<notin> set back_words" and "kw \<in> set suffix_keywords"
  shows "sub_suffix kw y = y"
proof -
  from assms(2) have r: "rev (map lower (split y)) = lower t # map lower ts"
    by (simp add: rev_map [symmetric])
  from assms(3,4) show ?thesis
    by (auto simp: suffix_keywords_def back_words_def keyword_lower keyword_words r
          intro!: sub_suffix_unchanged_lower [OF assms(1)])
qed

lemma lower_last_not_space:
  assumes "lower k = L" and "L \<noteq> []" and "\<not> is_space (last L)"
  shows "\<not> is_space (last (y @ c # k))"
proof -
  from assms(1,2) have ne: "k \<noteq> []" by (auto simp: lower_def)
  then have "last (lower k) = lower_char (last k)" by (simp add: lower_def last_map)
  with assms(1,3) have "\<not> is_space (last k)" by (simp add: is_space_lower_char)
  with ne show ?thesis by simp
qed

lemma lower_no_newline:
  assumes "lower k = L" and "CHR 0x0A \<notin> set L"
  shows "CHR 0x0A \<notin> set k"
proof
  assume "CHR 0x0A \<in> set k"
  then have "lower_char (CHR 0x0A) \<in> set (lower k)" by (simp add: lower_def)
  with assms show False by (simp add: char_class_simps)
qed

lemma suffix_fold_marked:
  assumes y: "takeWhile is_space (rev y) = []" "rev (split y) = t # ts" "lower t \<notin> set back_words"
    and k: "list_ex (\<lambda>kw. ci_eq kw k)
              [''Round'', ''Round Time'', ''Time'', ''Follow live'', ''Follow'', ''LIVE NOW'', ''LIVE'', ''now'']"
  shows "foldl (\<lambda>n kw. sub_suffix kw n) (y @ CHR '' '' # k) suffix_keywords = y"
proof -
  let ?s = "y @ CHR '' '' # k"
  have A: "sub_suffix kw ?s = y" if "lower kw = lower k" and "CHR 0x0A \<notin> set k" for kw
    using that y(1) by (simp add: sub_suffix_keyword ci_eq_def)
  have tok: "rev (map lower (split ?s)) = rev (split (lower k)) @ lower t # map lower ts"
    using split_append_space [OF space_is_space, of y k] y(2)
    by (simp add: split_lower rev_map [symmetric])
  have B: "sub_suffix kw ?s = ?s"
    if "\<not> is_space (last ?s)"
      and "take (length (split (lower kw))) (rev (split (lower k)) @ lower t # map lower ts)
             \<noteq> rev (split (lower kw))"
    for kw
    using that by (intro sub_suffix_unchanged_lower) (simp_all add: tok)
  have yl: "y = [] \<or> \<not> is_space (last y)"
    using y(1) by (cases y rule: rev_cases) (auto split: if_splits)
  have C: "sub_suffix kw y = y" if "kw \<in> set suffix_keywords" for kw
    using yl y(2,3) that by (rule sub_suffix_plain)
  from k consider "lower k = ''round''" | "lower k = ''round time''" | "lower k = ''time''"
    | "lower k = ''follow live''" | "lower k = ''follow''" | "lower k = ''live now''"
    | "lower k = ''live''" | "lower k = ''now''"
    by (auto simp: ci_eq_def keyword_lower)
  then show ?thesis
  proof cases
    case 1
    have e: "\<not> is_space (last ?s)"
      by (rule lower_last_not_space [OF 1]) (simp_all add: char_class_simps)
    have n: "CHR 0x0A \<notin> set k"
      by (rule lower_no_newline [OF 1]) simp
    note A = A [OF _ n] and B = B [OF e]
    from 1 show ?thesis
      using y(3)
      by (simp add: suffix_keywords_def A B C keyword_lower keyword_words back_words_def)
  next
    case 2
    have e: "\<not> is_space (last ?s)"
      by (rule lower_last_not_space [OF 2]) (simp_all add: char_class_simps)
    have n: "CHR 0x0A \<notin> set k"
      by (rule lower_no_newline [OF 2]) simp
    note A = A [OF _ n] and B = B [OF e]
    from 2 show ?thesis
      using y(3)
      by (simp add: suffix_keywords_def A B C keyword_lower keyword_words back_words_def)
  next
    case 3
    have e: "\<not> is_space (last ?s)"
      by (rule lower_last_not_space [OF 3]) (simp_all add: char_class_simps)
    have n: "CHR 0x0A \<notin> set k"
      by (rule lower_no_newline [OF 3]) simp
    note A = A [OF _ n] and B = B [OF e]
    from 3 show ?thesis
      using y(3)
      by (simp add: suffix_keywords_def A B C keyword_lower keyword_words back_words_def)
  next
    case 4
    have e: "\<not> is_space (last ?s)"
      by (rule lower_last_not_space [OF 4]) (simp_all add: char_class_simps)
    have n: "CHR 0x0A \<notin> set k"
      by (rule lower_no_newline [OF 4]) simp
    note A = A [OF _ n] and B = B [OF e]
    from 4 show ?thesis
      using y(3)
      by (simp add: suffix_keywords_def A B C keyword_lower keyword_words back_words_def)
  next
    case 5
    have e: "\<not> is_space (last ?s)"
      by (rule lower_last_not_space [OF 5]) (simp_all add: char_class_simps)
    have n: "CHR 0x0A \<notin> set k"
      by (rule lower_no_newline [OF 5]) simp
    note A = A [OF _ n] and B = B [OF e]
    from 5 show ?thesis
      using y(3)
      by (simp add: suffix_keywords_def A B C keyword_lower keyword_words back_words_def)
  next
    case 6
    have e: "\<not> is_space (last ?s)"
      by (rule lower_last_not_space [OF 6]) (simp_all add: char_class_simps)
    have n: "CHR 0x0A \<notin> set k"
      by (rule lower_no_newline [OF 6]) simp
    note A = A [OF _ n] and B = B [OF e]
    from 6 show ?thesis
      using y(3)
      by (simp add: suffix_keywords_def A B C keyword_lower keyword_words back_words_def)
  next
    case 7
    have e: "\<not> is_space (last ?s)"
      by (rule lower_last_not_space [OF 7]) (simp_all add: char_class_simps)
    have n: "CHR 0x0A \<notin> set k"
      by (rule lower_no_newline [OF 7]) simp
    note A = A [OF _ n] and B = B [OF e]
    from 7 show ?thesis
      using y(3)
      by (simp add: suffix_keywords_def A B C keyword_lower keyword_words back_words_def)
  next
    case 8
    have e: "\<not> is_space (last ?s)"
      by (rule lower_last_not_space [OF 8]) (simp_all add: char_class_simps)
    have n: "CHR 0x0A \<notin> set k"
      by (rule lower_no_newline [OF 8]) simp
    note A = A [OF _ n] and B = B [OF e]
    from 8 show ?thesis
      using y(3)
      by (simp add: suffix_keywords_def A B C keyword_lower keyword_words back_words_def)
  qed
qed

lemma normalised_ends:
  assumes "sub_ws (strip y) = y" and "y \<noteq> []"
  shows "\<not> is_space (hd y) \<and> \<not> is_space (last y)"
proof -
  from assms have sne: "strip y \<noteq> []" by auto
  with strip_ends [of y] have h: "\<not> is_space (hd (strip y))" and l: "\<not> is_space (last (strip y))"
    by simp_all
  from sub_ws_hd [OF sne h] assms(1) have "\<not> is_space (hd y)" using h by simp
  moreover from l have "ws_normal (sub_ws (strip y))" by (intro ws_normal_sub_ws) simp
  with assms have "\<not> is_space (last y)" by (simp add: ws_normal_last)
  ultimately show ?thesis by simp
qed

lemma first_word_not_C:
  assumes "map lower (split s) = w # ws" and "w \<noteq> ''c''"
  shows "\<forall>ts. split s \<noteq> ''C'' # ts"
proof (intro allI notI)
  fix ts assume "split s = ''C'' # ts"
  with assms(1) have "w = lower ''C''" by simp
  with assms(2) show False by (simp add: lower_def char_class_simps)
qed

lemma keyword_text_front:
  assumes "list_ex (\<lambda>kw. ci_eq kw k)
             [''Live now'', ''Live'', ''LIVE NOW'', ''LIVE'', ''Card'', ''Method'', ''Main Card'', ''Main'']"
  shows "k \<noteq> [] \<and> \<not> is_space (hd k) \<and> hd k \<noteq> CHR ''#''
    \<and> (\<forall>ts. split (k @ CHR '' '' # z) \<noteq> ''C'' # ts)"
proof -
  have tok: "map lower (split (k @ CHR '' '' # z)) = split (lower k) @ map lower (split z)"
    using split_append_space [OF space_is_space, of k z] by (simp add: split_lower)
  have hd_facts: "k \<noteq> [] \<and> \<not> is_space (hd k) \<and> hd k \<noteq> CHR ''#''"
    if "lower k = c # cs" and "\<not> is_space c" and "c \<noteq> CHR ''#''" for c cs
  proof -
    from that(1) obtain d ds where k: "k = d # ds" and d: "lower_char d = c"
      by (cases k) (auto simp: lower_def)
    from d that(2) have "\<not> is_space d" using is_space_lower_char [of d] by simp
    moreover have "d \<noteq> CHR ''#''"
    proof
      assume "d = CHR ''#''"
      with d have "c = CHR ''#''" by (simp add: char_class_simps)
      with that(3) show False by simp
    qed
    ultimately show ?thesis using k by simp
  qed
  from assms consider "lower k = ''live now''" | "lower k = ''live''" | "lower k = ''card''"
    | "lower k = ''method''" | "lower k = ''main card''" | "lower k = ''main''"
    by (auto simp: ci_eq_def keyword_lower)
  then show ?thesis
  proof cases
    case 1
    with hd_facts [of "CHR ''l''" "''ive now''"] first_word_not_C [of "k @ CHR '' '' # z" "''live''"] tok
    show ?thesis by (simp add: keyword_words char_class_simps)
  next
    case 2
    with hd_facts [of "CHR ''l''" "''ive''"] first_word_not_C [of "k @ CHR '' '' # z" "''live''"] tok
    show ?thesis by (simp add: keyword_words char_class_simps)
  next
    case 3
    with hd_facts [of "CHR ''c''" "''ard''"] first_word_not_C [of "k @ CHR '' '' # z" "''card''"] tok
    show ?thesis by (simp add: keyword_words char_class_simps)
  next
    case 4
    with hd_facts [of "CHR ''m''" "''ethod''"] first_word_not_C [of "k @ CHR '' '' # z" "''method''"] tok
    show ?thesis by (simp add: keyword_words char_class_simps)
  next
    case 5
    with hd_facts [of "CHR ''m''" "''ain card''"] first_word_not_C [of "k @ CHR '' '' # z" "''main''"] tok
    show ?thesis by (simp add: keyword_words char_class_simps)
  next
    case 6
    with hd_facts [of "CHR ''m''" "''ain''"] first_word_not_C [of "k @ CHR '' '' # z" "''main''"] tok
    show ?thesis by (simp add: keyword_words char_class_simps)
  qed
qed

lemma clean_decorated:
  assumes plain: "plain_name y"
    and rank: "rank = [] \<or> rank_marker rank"
    and champ: "champ = [] \<or> champ = ''C ''"
    and pre: "pre = [] \<or> prefix_marker pre"
    and suf: "suf = [] \<or> suffix_marker suf"
    and x: "sub_ws (strip x) = rank @ champ @ pre @ y @ suf"
  shows "clean_fighter_name x = y"
proof -
  from plain have yne: "y \<noteq> []" and yn: "sub_ws (strip y) = y" and yh: "hd y \<noteq> CHR ''#''"
    and yc: "hd (split y) \<noteq> ''C''" and yf: "lower (hd (split y)) \<notin> set front_words"
    and yb: "lower (last (split y)) \<notin> set back_words"
    by (simp_all add: plain_name_def)
  from normalised_ends [OF yn yne] have ys: "\<not> is_space (hd y)" and yl: "\<not> is_space (last y)"
    by simp_all
  from split_first_word [OF yne ys] obtain t ts where sy: "split y = t # ts"
    by (cases "split y") auto
  with yc yf have t: "t \<noteq> ''C''" "lower t \<notin> set front_words" by simp_all
  define u where "u = last (split y)"
  define us where "us = rev (butlast (split y))"
  from sy have "split y \<noteq> []" by simp
  then have "split y = butlast (split y) @ [last (split y)]" by simp
  then have "rev (split y) = rev (butlast (split y) @ [last (split y)])" by (rule arg_cong)
  then have ry: "rev (split y) = u # us" by (simp add: u_def us_def)
  from yb have ub: "lower u \<notin> set back_words" by (simp add: u_def)
  from yne yl have ry0: "takeWhile is_space (rev y) = []"
    by (cases y rule: rev_cases) auto

  let ?zs = "y @ suf"
  have zs_split: "\<exists>ts'. split ?zs = t # ts'"
  proof (cases "suf = []")
    case True
    with sy show ?thesis by simp
  next
    case False
    with suf obtain k where "suf = CHR '' '' # k"
      by (cases suf) (auto simp: suffix_marker_def)
    with split_append_space [OF space_is_space, of y k] sy show ?thesis by simp
  qed
  then obtain ts' where zs: "split ?zs = t # ts'" ..
  from yne ys have zs0: "takeWhile is_space ?zs = []" by (cases y) auto
  from yne have zsh: "?zs \<noteq> []" "hd ?zs = hd y" by simp_all

  have s5: "foldl (\<lambda>n kw. sub_suffix kw n) ?zs suffix_keywords = y"
  proof (cases "suf = []")
    case True
    have "\<forall>kw\<in>set suffix_keywords. sub_suffix kw y = y"
      using yl ry ub by (auto intro: sub_suffix_plain)
    from foldl_fixed [of suffix_keywords sub_suffix y, OF this] True show ?thesis by simp
  next
    case False
    with suf obtain k where k: "suf = CHR '' '' # k"
      and "list_ex (\<lambda>kw. ci_eq kw k)
             [''Round'', ''Round Time'', ''Time'', ''Follow live'', ''Follow'', ''LIVE NOW'', ''LIVE'', ''now'']"
      by (cases suf) (auto simp: suffix_marker_def)
    from suffix_fold_marked [OF ry0 ry ub this(2)] k show ?thesis by simp
  qed

  let ?zp = "pre @ ?zs"
  have s4: "foldl (\<lambda>n kw. sub_prefix kw n) ?zp prefix_keywords = ?zs"
    and zp: "?zp \<noteq> [] \<and> \<not> is_space (hd ?zp) \<and> hd ?zp \<noteq> CHR ''#''
              \<and> (\<forall>ts. split ?zp \<noteq> ''C'' # ts)"
  proof -
    show "foldl (\<lambda>n kw. sub_prefix kw n) ?zp prefix_keywords = ?zs"
    proof (cases "pre = []")
      case True
      with prefix_fold_plain [OF zs t(2)] show ?thesis by simp
    next
      case False
      with pre have pm: "prefix_marker pre" by simp
      then have "pre = butlast pre @ [CHR '' '']"
        by (metis prefix_marker_def append_butlast_last_id)
      then have e: "?zp = butlast pre @ CHR '' '' # ?zs" by (metis append_Cons append_Nil append_assoc)
      from pm prefix_fold_marked [OF zs t(2) zs0, of "butlast pre"] show ?thesis
        unfolding e by (simp add: prefix_marker_def)
    qed
  next
    show "?zp \<noteq> [] \<and> \<not> is_space (hd ?zp) \<and> hd ?zp \<noteq> CHR ''#''
              \<and> (\<forall>ts. split ?zp \<noteq> ''C'' # ts)"
    proof (cases "pre = []")
      case True
      with zs zsh ys yh t(1) show ?thesis by simp
    next
      case False
      with pre have pm: "prefix_marker pre" by simp
      then have "pre = butlast pre @ [CHR '' '']"
        by (metis prefix_marker_def append_butlast_last_id)
      then have e: "?zp = butlast pre @ CHR '' '' # ?zs" by (metis append_Cons append_Nil append_assoc)
      from pm have "list_ex (\<lambda>kw. ci_eq kw (butlast pre))
             [''Live now'', ''Live'', ''LIVE NOW'', ''LIVE'', ''Card'', ''Method'', ''Main Card'', ''Main'']"
        by (simp add: prefix_marker_def)
      from keyword_text_front [OF this, of ?zs] show ?thesis
        unfolding e by (cases "butlast pre") auto
    qed
  qed
  from zp have zp0: "takeWhile is_space ?zp = []" by (cases ?zp) auto

  let ?zc = "champ @ ?zp"
  have s3: "sub_champion ?zc = ?zp"
  proof (cases "champ = []")
    case True
    with zp sub_champion_unchanged [of ?zp] show ?thesis by simp
  next
    case False
    with champ have "champ = ''C ''" by simp
    with sub_champion_marker [OF zp0] show ?thesis by simp
  qed
  have zc: "?zc \<noteq> [] \<and> \<not> is_space (hd ?zc) \<and> hd ?zc \<noteq> CHR ''#''"
  proof (cases "champ = []")
    case True
    with zp show ?thesis by simp
  next
    case False
    with champ have "champ = ''C ''" by simp
    then show ?thesis by (simp add: char_class_simps)
  qed
  then have zc0: "takeWhile is_space ?zc = []" by (cases ?zc) auto

  have s2: "sub_rank (rank @ ?zc) = ?zc"
  proof (cases "rank = []")
    case True
    with zc sub_rank_unchanged [of ?zc] show ?thesis by simp
  next
    case False
    with rank have "rank_marker rank" by simp
    then obtain cs where r: "rank = CHR ''#'' # cs" and cs: "cs \<noteq> []" "last cs = CHR '' ''"
      "butlast cs \<noteq> []" "list_all is_digit (butlast cs)"
      by (cases rank) (auto simp: rank_marker_def)
    from cs(1,2) have "cs = butlast cs @ [CHR '' '']" by (metis append_butlast_last_id)
    with r have "rank @ ?zc = CHR ''#'' # butlast cs @ CHR '' '' # ?zc"
      by (metis append_Cons append_Nil append_assoc)
    with sub_rank_marker [OF cs(3,4) zc0] show ?thesis by simp
  qed

  have x': "sub_ws (strip x) = rank @ ?zc" using x by simp
  show ?thesis
    unfolding clean_fighter_name_def Let_def x' s2 s3 s4 s5 by (rule yn)
qed

section \<open>The aggregation keeps its keys\<close>

lemma foldl_process_match_invalid:
  "\<forall>m\<in>set ms. \<not> valid_pair (cleaned m) \<Longrightarrow> foldl process_match seen ms = seen"
  by (induction ms arbitrary: seen) (simp_all add: process_match_def)

lemma sort_two_commute: "sort [a, b] = sort [b, (a::string)]"
  by (cases "a \<le> b"; cases "b \<le> a") auto

lemma same_fight_key: "same_fight p e \<Longrightarrow> pair_key p = pair_key e"
  unfolding same_fight_def pair_key_def
  by (auto dest!: names_match_normalize simp: sort_two_commute)

lemma find_matched_key_stored:
  "find_matched_key seen p = Some k \<Longrightarrow> \<exists>e. (k, e) \<in> set seen \<and> same_fight p e"
  by (induction seen p rule: find_matched_key.induct) (auto split: if_splits)

lemma find_matched_key_lookup:
  "find_matched_key seen p = Some k \<Longrightarrow> \<exists>e. map_of seen k = Some e"
proof -
  assume "find_matched_key seen p = Some k"
  from find_matched_key_stored [OF this] obtain e where "(k, e) \<in> set seen" by blast
  then have "k \<in> fst ` set seen" by force
  then have "map_of seen k \<noteq> None" by (simp add: map_of_eq_None_iff)
  then show ?thesis by blast
qed

lemma set_update_cases:
  "x \<in> set (AList.update k v al) \<Longrightarrow> x = (k, v) \<or> x \<in> set al"
  by (induction al) (auto split: if_splits)

lemma keyed_update:
  assumes "keyed seen" and "k = pair_key p"
  shows "keyed (AList.update k p seen)"
proof -
  from assms(1) have "distinct (map fst (AList.update k p seen))"
    by (simp add: keyed_def distinct_update)
  moreover have "list_all (\<lambda>(k, e). k = pair_key e) (AList.update k p seen)"
    unfolding list_all_iff
  proof
    fix x assume "x \<in> set (AList.update k p seen)"
    then have "x = (k, p) \<or> x \<in> set seen" by (rule set_update_cases)
    with assms show "case x of (k, e) \<Rightarrow> k = pair_key e"
      by (auto simp: keyed_def list_all_iff)
  qed
  ultimately show ?thesis by (simp add: keyed_def)
qed

lemma keyed_add_pair: "keyed seen \<Longrightarrow> keyed (add_pair seen p)"
proof -
  assume k: "keyed seen"
  show ?thesis
  proof (cases "find_matched_key seen p")
    case None
    with k show ?thesis by (simp add: add_pair_def keyed_update)
  next
    case (Some mk)
    from find_matched_key_stored [OF Some] obtain e where
      e: "(mk, e) \<in> set seen" and sf: "same_fight p e" by blast
    from k e have "mk = pair_key e" by (auto simp: keyed_def list_all_iff)
    with sf have "mk = pair_key p" by (simp add: same_fight_key)
    with k have "keyed (AList.update mk p seen)" by (rule keyed_update)
    with k Some show ?thesis
      by (simp add: add_pair_def merge_pair_def split: option.splits)
  qed
qed

lemma keyed_foldl: "keyed seen \<Longrightarrow> keyed (foldl process_match seen ms)"
  by (induction ms arbitrary: seen) (simp_all add: process_match_def keyed_add_pair)

lemma keyed_aggregate: "keyed (aggregate ms)"
  unfolding aggregate_def by (rule keyed_foldl) (simp add: keyed_def)

lemma filter_key_le_one:
  "distinct (map fst xs) \<Longrightarrow> length (filter (\<lambda>x. fst x = k) xs) \<le> 1"
proof (induction xs)
  case Nil
  then show ?case by simp
next
  case (Cons x xs)
  show ?case
  proof (cases "fst x = k")
    case True
    with Cons(2) have "\<forall>y\<in>set xs. fst y \<noteq> k" by (auto simp: image_iff)
    then have "filter (\<lambda>x. fst x = k) xs = []" by (simp add: filter_empty_conv)
    with True show ?thesis by simp
  next
    case False
    with Cons show ?thesis by simp
  qed
qed

lemma filter_mono_length:
  "(\<And>x. x \<in> set xs \<Longrightarrow> P x \<Longrightarrow> Q x) \<Longrightarrow> length (filter P xs) \<le> length (filter Q xs)"
proof (induction xs)
  case Nil
  then show ?case by simp
next
  case (Cons x xs)
  then have "length (filter P xs) \<le> length (filter Q xs)" by simp
  with Cons(2) [of x] show ?case by auto
qed

lemma at_most_one_entry:
  assumes "pair_key p1 = pair_key p2"
  shows "length (filter (\<lambda>e. same_fight p1 e \<or> same_fight p2 e) (map snd (aggregate ms))) \<le> 1"
proof -
  let ?seen = "aggregate ms"
  have k: "keyed ?seen" by (rule keyed_aggregate)
  have "length (filter (\<lambda>e. same_fight p1 e \<or> same_fight p2 e) (map snd ?seen))
          = length (filter (\<lambda>x. same_fight p1 (snd x) \<or> same_fight p2 (snd x)) ?seen)"
    by (simp add: filter_map comp_def)
  also have "\<dots> \<le> length (filter (\<lambda>x. fst x = pair_key p1) ?seen)"
  proof (rule filter_mono_length)
    fix x assume x: "x \<in> set ?seen" and m: "same_fight p1 (snd x) \<or> same_fight p2 (snd x)"
    from k x have "fst x = pair_key (snd x)" by (auto simp: keyed_def list_all_iff)
    with m assms show "fst x = pair_key p1" by (auto dest: same_fight_key)
  qed
  also have "\<dots> \<le> 1"
    using k filter_key_le_one [of ?seen "pair_key p1"] by (simp add: keyed_def)
  finally show ?thesis .
qed

section \<open>The best mention of a fight survives\<close>

lemma foldl_process_match_valid:
  "foldl process_match seen ms = foldl add_pair seen (filter valid_pair (map cleaned ms))"
  by (induction ms arbitrary: seen) (simp_all add: process_match_def)

lemma keyed_entry: "keyed seen \<Longrightarrow> (k, e) \<in> set seen \<Longrightarrow> k = pair_key e"
  by (auto simp: keyed_def list_all_iff)

lemma find_matched_key_found:
  "(k, e) \<in> set seen \<Longrightarrow> same_fight p e \<Longrightarrow> find_matched_key seen p \<noteq> None"
  by (induction seen p rule: find_matched_key.induct) auto

lemma find_matched_key_is_key:
  assumes "keyed seen" and "find_matched_key seen p = Some k"
  shows "k = pair_key p"
proof -
  from find_matched_key_stored [OF assms(2)] obtain e where
    e: "(k, e) \<in> set seen" and sf: "same_fight p e" by blast
  from keyed_entry [OF assms(1) e] same_fight_key [OF sf] show ?thesis by simp
qed

lemma keyed_lookup: "keyed seen \<Longrightarrow> map_of seen k = Some e \<longleftrightarrow> (k, e) \<in> set seen"
  by (simp add: keyed_def)

lemma add_pair_other_key:
  assumes "keyed seen" and "pair_key p \<noteq> K"
  shows "map_of (add_pair seen p) K = map_of seen K"
proof (cases "find_matched_key seen p")
  case None
  with assms(2) show ?thesis by (simp add: add_pair_def update_conv')
next
  case (Some k)
  with find_matched_key_is_key [OF assms(1) Some] assms(2) show ?thesis
    by (simp add: add_pair_def merge_pair_def update_conv' split: option.splits)
qed

lemma add_pair_new_key:
  assumes "keyed seen" and "map_of seen (pair_key p) = None"
  shows "map_of (add_pair seen p) (pair_key p) = Some p"
proof (cases "find_matched_key seen p")
  case None
  then show ?thesis by (simp add: add_pair_def update_conv')
next
  case (Some k)
  from find_matched_key_is_key [OF assms(1) Some] find_matched_key_lookup [OF Some] assms(2)
  show ?thesis by simp
qed

lemma add_pair_same_key:
  assumes "keyed seen" and "map_of seen (pair_key p) = Some e" and "same_fight p e"
  shows "map_of (add_pair seen p) (pair_key p) = Some (if replaces p e then p else e)"
proof -
  from assms(1,2) have "(pair_key p, e) \<in> set seen" by (simp add: keyed_lookup)
  from find_matched_key_found [OF this assms(3)] obtain k where k: "find_matched_key seen p = Some k"
    by blast
  from find_matched_key_is_key [OF assms(1) k] have "k = pair_key p" .
  with k assms(2) show ?thesis
    by (simp add: add_pair_def merge_pair_def update_conv')
qed


lemma best_step:
  assumes kF: "pair_key F = K" and kS: "pair_key S = K"
    and m: "same_fight F S" "same_fight S F" "same_fight F F" "same_fight S S"
    and r: "replaces F S" "\<not> replaces S F" "\<not> replaces F F" "\<not> replaces S S"
    and k: "keyed seen"
    and i: "map_of seen K = None \<or> map_of seen K = Some F \<or> map_of seen K = Some S"
    and ok: "pair_key p = K \<longrightarrow> p = F \<or> p = S"
  shows "(map_of (add_pair seen p) K = None \<or> map_of (add_pair seen p) K = Some F
            \<or> map_of (add_pair seen p) K = Some S)
    \<and> (map_of seen K = Some F \<longrightarrow> map_of (add_pair seen p) K = Some F)
    \<and> (p = F \<longrightarrow> map_of (add_pair seen p) K = Some F)"
proof (cases "pair_key p = K")
  case False
  with add_pair_other_key [OF k False] i kF show ?thesis by auto
next
  case True
  with ok have p: "p = F \<or> p = S" by simp
  from i show ?thesis
  proof (elim disjE)
    assume n: "map_of seen K = None"
    with True add_pair_new_key [OF k, of p] p show ?thesis by auto
  next
    assume e: "map_of seen K = Some F"
    from p show ?thesis
    proof
      assume "p = F"
      with add_pair_same_key [OF k, of F F] e kF m r show ?thesis by simp
    next
      assume "p = S"
      with add_pair_same_key [OF k, of S F] e kS kF m r show ?thesis by auto
    qed
  next
    assume e: "map_of seen K = Some S"
    from p show ?thesis
    proof
      assume "p = F"
      with add_pair_same_key [OF k, of F S] e kF m r show ?thesis by simp
    next
      assume "p = S"
      with add_pair_same_key [OF k, of S S] e kS kF m r show ?thesis by auto
    qed
  qed
qed

lemma best_fold:
  assumes kF: "pair_key F = K" and kS: "pair_key S = K"
    and m: "same_fight F S" "same_fight S F" "same_fight F F" "same_fight S S"
    and r: "replaces F S" "\<not> replaces S F" "\<not> replaces F F" "\<not> replaces S S"
  shows "keyed seen
    \<Longrightarrow> map_of seen K = None \<or> map_of seen K = Some F \<or> map_of seen K = Some S
    \<Longrightarrow> \<forall>p\<in>set ps. pair_key p = K \<longrightarrow> p = F \<or> p = S
    \<Longrightarrow> keyed (foldl add_pair seen ps)
      \<and> (map_of (foldl add_pair seen ps) K = None \<or> map_of (foldl add_pair seen ps) K = Some F
            \<or> map_of (foldl add_pair seen ps) K = Some S)
      \<and> (map_of seen K = Some F \<or> F \<in> set ps \<longrightarrow> map_of (foldl add_pair seen ps) K = Some F)"
proof (induction ps arbitrary: seen)
  case Nil
  then show ?case by simp
next
  case (Cons p ps)
  from Cons(4) have okp: "pair_key p = K \<longrightarrow> p = F \<or> p = S"
    and oks: "\<forall>p\<in>set ps. pair_key p = K \<longrightarrow> p = F \<or> p = S" by simp_all
  note st = best_step [OF kF kS m r Cons(2) Cons(3) okp]
  from Cons(2) have k': "keyed (add_pair seen p)" by (rule keyed_add_pair)
  from st have i': "map_of (add_pair seen p) K = None \<or> map_of (add_pair seen p) K = Some F
            \<or> map_of (add_pair seen p) K = Some S" by blast
  note ih = Cons(1) [OF k' i' oks]
  from ih st show ?case by auto
qed

lemma filter_the_entry:
  "distinct xs \<Longrightarrow> a \<in> set xs \<Longrightarrow> filter (\<lambda>x. x = a) xs = [a]"
proof (induction xs)
  case Nil
  then show ?case by simp
next
  case (Cons x xs)
  show ?case
  proof (cases "x = a")
    case True
    with Cons(2) have "a \<notin> set xs" by simp
    then have "filter (\<lambda>x. x = a) xs = []" by (auto simp: filter_empty_conv)
    with True show ?thesis by simp
  next
    case False
    with Cons show ?thesis by simp
  qed
qed

lemma one_entry_for_fight:
  assumes kF: "pair_key F = K" and kS: "pair_key S = K" and mF: "same_fight F F"
    and k: "keyed seen" and e: "map_of seen K = Some F"
  shows "filter (\<lambda>e. same_fight F e \<or> same_fight S e) (map snd seen) = [F]"
proof -
  from k e have mem: "(K, F) \<in> set seen" by (simp add: keyed_lookup)
  from k have d: "distinct seen" by (auto simp: keyed_def dest: distinct_map [THEN iffD1])
  have "(same_fight F (snd x) \<or> same_fight S (snd x)) = (x = (K, F))" if x: "x \<in> set seen" for x
  proof
    assume "same_fight F (snd x) \<or> same_fight S (snd x)"
    then have "pair_key (snd x) = K" using kF kS by (auto dest: same_fight_key)
    moreover from k x have "fst x = pair_key (snd x)" by (auto simp: keyed_def list_all_iff)
    ultimately have fx: "fst x = K" by simp
    with x have "(K, snd x) \<in> set seen" by (metis prod.collapse)
    with k e have "snd x = F" by (simp add: keyed_lookup [symmetric])
    with fx show "x = (K, F)" by (metis prod.collapse)
  next
    assume "x = (K, F)"
    with mF show "same_fight F (snd x) \<or> same_fight S (snd x)" by simp
  qed
  then have "filter (\<lambda>x. same_fight F (snd x) \<or> same_fight S (snd x)) seen
               = filter (\<lambda>x. x = (K, F)) seen"
    by (intro filter_cong refl)
  also have "\<dots> = [(K, F)]" using d mem by (rule filter_the_entry)
  finally show ?thesis by (simp add: filter_map comp_def)
qed

section \<open>Evaluation on concrete texts\<close>

text \<open>
  The definitions that the simplifier unfolds to run the model on a concrete input.  A
  \<open>let\<close> is unfolded once its bound term has been evaluated (the congruence rule
  \<open>let_weak_cong\<close> in each proof).
\<close>

declare findall.simps [simp del]

lemmas scan_simps =
  findall.simps match_at_def try_group1.simps match_rest_def try_group2.simps at_boundary_def

lemmas clean_simps =
  clean_fighter_name_def sub_rank_def sub_champion_def sub_prefix_def sub_suffix_def ci_eq_def
  lower_def strip_def prefix_keywords_def suffix_keywords_def

lemmas match_simps =
  names_match_def normalize_name_for_matching_def split.simps lower_def

lemmas valid_simps =
  valid_name_def excluded_def match_whole_ci_def match_contains_ci_def at_end_def
  exclude_tokens_def exclude_countries_def exclude_keywords_def proper_name_def ci_eq_def
  lower_def

lemmas choice_simps =
  replaces_def has_unwanted_def unwanted_words_def word_count_def total_len_def split.simps
  lower_def

lemmas store_simps =
  aggregate_def process_match_def add_pair_def merge_pair_def same_fight_def pair_key_def

lemma scan_two_mentions:
  "findall None ''#4 Justin Gaethje vs Max Holloway. Live now Gaethje vs Holloway.''
     = [(''Justin Gaethje'', ''Max Holloway''), (''Live now Gaethje'', ''Holloway'')]"
  by (simp add: scan_simps char_class_simps Let_def cong: let_weak_cong)

lemma scan_merged_mentions:
  "findall None ''#4 Justin Gaethje vs Max Holloway Live now Gaethje vs Holloway''
     = [(''Justin Gaethje vs Max Holloway Live now Gaethje'', ''Holloway'')]"
  by (simp add: scan_simps char_class_simps Let_def cong: let_weak_cong)

lemma cleaned_full: "cleaned (''Justin Gaethje'', ''Max Holloway'') = (''Justin Gaethje'', ''Max Holloway'')"
  by (simp add: cleaned_def clean_simps char_class_simps Let_def cong: let_weak_cong)

lemma cleaned_live: "cleaned (''Live now Gaethje'', ''Holloway'') = (''Gaethje'', ''Holloway'')"
  by (simp add: cleaned_def clean_simps char_class_simps Let_def cong: let_weak_cong)

lemma cleaned_merged:
  "cleaned (''Justin Gaethje vs Max Holloway Live now Gaethje'', ''Holloway'')
     = (''Justin Gaethje vs Max Holloway Live now Gaethje'', ''Holloway'')"
  by (simp add: cleaned_def clean_simps char_class_simps Let_def cong: let_weak_cong)

lemma valid_full: "valid_pair (''Justin Gaethje'', ''Max Holloway'')"
  by (simp add: valid_pair_def valid_simps char_class_simps Let_def cong: let_weak_cong)

lemma valid_short: "valid_pair (''Gaethje'', ''Holloway'')"
  by (simp add: valid_pair_def valid_simps char_class_simps Let_def cong: let_weak_cong)

lemma invalid_merged:
  "\<not> valid_pair (''Justin Gaethje vs Max Holloway Live now Gaethje'', ''Holloway'')"
  by (simp add: valid_pair_def valid_name_def)

lemma mention_facts:
  defines "F \<equiv> (''Justin Gaethje'', ''Max Holloway'')" and "S \<equiv> (''Gaethje'', ''Holloway'')"
  shows "pair_key F = [''gaethje'', ''holloway'']" and "pair_key S = [''gaethje'', ''holloway'']"
    and "same_fight F S" and "same_fight S F" and "same_fight F F" and "same_fight S S"
    and "replaces F S" and "\<not> replaces S F" and "\<not> replaces F F" and "\<not> replaces S S"
  unfolding F_def S_def
  by (simp_all add: pair_key_def same_fight_def match_simps choice_simps char_class_simps Let_def
        cong: let_weak_cong)

lemma scan_three_fights:
  "findall None
     ''#4 Justin Gaethje vs Max Holloway. Jon Jones vs Tom Aspinall. Live now Gaethje vs Holloway.''
     = [(''Justin Gaethje'', ''Max Holloway''), (''Jon Jones'', ''Tom Aspinall''),
        (''Live now Gaethje'', ''Holloway'')]"
  by (simp add: scan_simps char_class_simps Let_def cong: let_weak_cong)

lemma cleaned_other: "cleaned (''Jon Jones'', ''Tom Aspinall'') = (''Jon Jones'', ''Tom Aspinall'')"
  by (simp add: cleaned_def clean_simps char_class_simps Let_def cong: let_weak_cong)

lemma valid_other: "valid_pair (''Jon Jones'', ''Tom Aspinall'')"
  by (simp add: valid_pair_def valid_simps char_class_simps Let_def cong: let_weak_cong)

lemma key_other: "pair_key (''Jon Jones'', ''Tom Aspinall'') = [''aspinall'', ''jones'']"
  by (simp add: pair_key_def match_simps char_class_simps Let_def cong: let_weak_cong)

lemma scan_namesakes:
  "findall None ''Justin Gaethje vs Max Holloway. Jim Gaethje vs Sam Holloway.''
     = [(''Justin Gaethje'', ''Max Holloway''), (''Jim Gaethje'', ''Sam Holloway'')]"
  by (simp add: scan_simps char_class_simps Let_def cong: let_weak_cong)

lemma cleaned_namesake: "cleaned (''Jim Gaethje'', ''Sam Holloway'') = (''Jim Gaethje'', ''Sam Holloway'')"
  by (simp add: cleaned_def clean_simps char_class_simps Let_def cong: let_weak_cong)

lemma valid_namesake: "valid_pair (''Jim Gaethje'', ''Sam Holloway'')"
  by (simp add: valid_pair_def valid_simps char_class_simps Let_def cong: let_weak_cong)

lemma namesakes_facts:
  defines "t \<equiv> ''Justin Gaethje vs Max Holloway. Jim Gaethje vs Sam Holloway.''"
    and "p1 \<equiv> (''Justin Gaethje'', ''Max Holloway'')"
    and "p2 \<equiv> (''Jim Gaethje'', ''Sam Holloway'')"
  shows "valid_pairs t = [p1, p2]
    \<and> \<not> names_match (fst p2) (fst p1) \<and> \<not> names_match (snd p2) (snd p1)
    \<and> \<not> names_match (fst p2) (snd p1) \<and> \<not> names_match (snd p2) (fst p1)
    \<and> pair_key p1 = pair_key p2
    \<and> add_pair [] p1 = [(pair_key p1, p1)]
    \<and> find_matched_key [(pair_key p1, p1)] p2 = None
    \<and> add_pair [(pair_key p1, p1)] p2 = [(pair_key p1, p2)]
    \<and> get_fighter_pairs_from_ufc_event t = [p2]"
proof -
  have v: "valid_pairs t = [p1, p2]"
    unfolding t_def p1_def p2_def
    by (simp add: valid_pairs_def scan_namesakes cleaned_full cleaned_namesake valid_full valid_namesake)
  have n: "\<not> names_match (fst p2) (fst p1) \<and> \<not> names_match (snd p2) (snd p1)
    \<and> \<not> names_match (fst p2) (snd p1) \<and> \<not> names_match (snd p2) (fst p1)"
    unfolding p1_def p2_def
    by (simp add: match_simps char_class_simps Let_def cong: let_weak_cong)
  have k1: "pair_key p1 = [''gaethje'', ''holloway'']"
    unfolding p1_def by (simp add: pair_key_def match_simps char_class_simps Let_def cong: let_weak_cong)
  have k2: "pair_key p2 = [''gaethje'', ''holloway'']"
    unfolding p2_def by (simp add: pair_key_def match_simps char_class_simps Let_def cong: let_weak_cong)
  have f: "find_matched_key [(pair_key p1, p1)] p2 = None"
    using n by (simp add: same_fight_def p1_def p2_def)
  have a1: "add_pair [] p1 = [(pair_key p1, p1)]"
    by (simp add: add_pair_def)
  have a2: "add_pair [(pair_key p1, p1)] p2 = [(pair_key p1, p2)]"
    using f by (simp add: add_pair_def k1 k2)
  have "get_fighter_pairs_from_ufc_event t = map snd (add_pair (add_pair [] p1) p2)"
    unfolding t_def p1_def p2_def
    by (simp add: get_fighter_pairs_from_ufc_event_def scan_namesakes aggregate_def
          process_match_def cleaned_full cleaned_namesake valid_full valid_namesake)
  then have g: "get_fighter_pairs_from_ufc_event t = [p2]"
    by (simp only: a1 a2) simp
  from v n k1 k2 a1 f a2 g show ?thesis by simp
qed

section \<open>The claims\<close>

text \<open>
  C1.  A page text that contains both mentions need not yield the pair: the character
  class of the pattern holds the space, so with nothing but spaces between the two
  mentions the greedy first group runs through the first mention into the second, and the
  47 characters it captures fail the length filter.
\<close>

theorem mentions_merged_no_pair:
  "is_in ''#4 Justin Gaethje vs Max Holloway''
      ''#4 Justin Gaethje vs Max Holloway Live now Gaethje vs Holloway''
   \<and> is_in ''Live now Gaethje vs Holloway''
      ''#4 Justin Gaethje vs Max Holloway Live now Gaethje vs Holloway''
   \<and> get_fighter_pairs_from_ufc_event
        ''#4 Justin Gaethje vs Max Holloway Live now Gaethje vs Holloway'' = []"
proof -
  have "get_fighter_pairs_from_ufc_event
          ''#4 Justin Gaethje vs Max Holloway Live now Gaethje vs Holloway'' = []"
    by (simp add: get_fighter_pairs_from_ufc_event_def scan_merged_mentions aggregate_def
          process_match_def cleaned_merged invalid_merged)
  moreover have "is_in ''#4 Justin Gaethje vs Max Holloway''
      ''#4 Justin Gaethje vs Max Holloway Live now Gaethje vs Holloway''"
    by simp
  moreover have "is_in ''Live now Gaethje vs Holloway''
      ''#4 Justin Gaethje vs Max Holloway Live now Gaethje vs Holloway''"
    by simp
  ultimately show ?thesis by blast
qed

text \<open>
  C1, as the code has it.  Take any page text whose scan yields the pair Justin Gaethje,
  Max Holloway among its valid pairs, and in which every valid pair with the surname key
  gaethje, holloway is that pair or the short one, Gaethje, Holloway.  Then the result
  holds exactly one pair for this fight, and it is Justin Gaethje, Max Holloway: however
  often and in whatever order the two mentions occur, and whatever other fights the page
  lists.
\<close>

theorem full_mention_is_the_pair:
  assumes "(''Justin Gaethje'', ''Max Holloway'') \<in> set (valid_pairs text_content)"
    and "list_all (\<lambda>p. pair_key p = [''gaethje'', ''holloway'']
                      \<longrightarrow> p = (''Justin Gaethje'', ''Max Holloway'') \<or> p = (''Gaethje'', ''Holloway''))
           (valid_pairs text_content)"
  shows "filter (\<lambda>e. same_fight (''Justin Gaethje'', ''Max Holloway'') e
                     \<or> same_fight (''Gaethje'', ''Holloway'') e)
           (get_fighter_pairs_from_ufc_event text_content)
         = [(''Justin Gaethje'', ''Max Holloway'')]"
proof -
  let ?F = "(''Justin Gaethje'', ''Max Holloway'')" and ?S = "(''Gaethje'', ''Holloway'')"
  let ?K = "[''gaethje'', ''holloway'']"
  let ?seen = "foldl add_pair [] (valid_pairs text_content)"
  from assms(2) have ok: "\<forall>p\<in>set (valid_pairs text_content). pair_key p = ?K \<longrightarrow> p = ?F \<or> p = ?S"
    by (simp add: list_all_iff)
  have start: "keyed []" "map_of ([] :: seen_pairs) ?K = None \<or> map_of [] ?K = Some ?F
      \<or> map_of [] ?K = Some ?S"
    by (simp_all add: keyed_def)
  from best_fold [OF mention_facts start ok] assms(1)
  have k: "keyed ?seen" and e: "map_of ?seen ?K = Some ?F" by simp_all
  have "get_fighter_pairs_from_ufc_event text_content = map snd ?seen"
    by (simp add: get_fighter_pairs_from_ufc_event_def aggregate_def valid_pairs_def
          foldl_process_match_valid)
  with one_entry_for_fight [OF mention_facts(1,2,5) k e] show ?thesis by simp
qed

theorem full_mention_is_the_pair_witness:
  "valid_pairs
      ''#4 Justin Gaethje vs Max Holloway. Jon Jones vs Tom Aspinall. Live now Gaethje vs Holloway.''
     = [(''Justin Gaethje'', ''Max Holloway''), (''Jon Jones'', ''Tom Aspinall''),
        (''Gaethje'', ''Holloway'')]
   \<and> pair_key (''Jon Jones'', ''Tom Aspinall'') = [''aspinall'', ''jones'']
   \<and> filter (\<lambda>e. same_fight (''Justin Gaethje'', ''Max Holloway'') e
                     \<or> same_fight (''Gaethje'', ''Holloway'') e)
        (get_fighter_pairs_from_ufc_event
           ''#4 Justin Gaethje vs Max Holloway. Jon Jones vs Tom Aspinall. Live now Gaethje vs Holloway.'')
      = [(''Justin Gaethje'', ''Max Holloway'')]"
proof -
  let ?t = "''#4 Justin Gaethje vs Max Holloway. Jon Jones vs Tom Aspinall. Live now Gaethje vs Holloway.''"
  have v: "valid_pairs ?t
     = [(''Justin Gaethje'', ''Max Holloway''), (''Jon Jones'', ''Tom Aspinall''),
        (''Gaethje'', ''Holloway'')]"
    by (simp add: valid_pairs_def scan_three_fights cleaned_full cleaned_other cleaned_live
          valid_full valid_other valid_short)
  have 1: "(''Justin Gaethje'', ''Max Holloway'') \<in> set (valid_pairs ?t)"
    unfolding v by simp
  have 2: "list_all (\<lambda>p. pair_key p = [''gaethje'', ''holloway'']
                      \<longrightarrow> p = (''Justin Gaethje'', ''Max Holloway'') \<or> p = (''Gaethje'', ''Holloway''))
           (valid_pairs ?t)"
    unfolding v by (simp add: key_other)
  from full_mention_is_the_pair [OF 1 2] v key_other show ?thesis by simp
qed

text \<open>
  C2.  Noise is not counted.  A candidate with one noise word does not win outright
  against a stored pair with two: both carry a noise word, so the word counts decide, and
  the stored pair, which has more words, stays.
\<close>

theorem fewer_noise_words_not_preferred:
  "same_fight (''Carder Jones'', ''Smith'') (''Lively Carder Jones'', ''Smith'')
   \<and> noise_count (''Carder Jones'', ''Smith'') = 1
   \<and> noise_count (''Lively Carder Jones'', ''Smith'') = 2
   \<and> claimed_replaces (''Carder Jones'', ''Smith'') (''Lively Carder Jones'', ''Smith'')
   \<and> \<not> replaces (''Carder Jones'', ''Smith'') (''Lively Carder Jones'', ''Smith'')
   \<and> add_pair [([''jones'', ''smith''], (''Lively Carder Jones'', ''Smith''))] (''Carder Jones'', ''Smith'')
       = [([''jones'', ''smith''], (''Lively Carder Jones'', ''Smith''))]"
proof -
  have m: "same_fight (''Carder Jones'', ''Smith'') (''Lively Carder Jones'', ''Smith'')"
    by (simp add: same_fight_def match_simps char_class_simps Let_def cong: let_weak_cong)
  have n1: "noise_count (''Carder Jones'', ''Smith'') = 1"
    by (simp add: noise_count_def unwanted_words_def lower_def char_class_simps)
  have n2: "noise_count (''Lively Carder Jones'', ''Smith'') = 2"
    by (simp add: noise_count_def unwanted_words_def lower_def char_class_simps)
  have c: "claimed_replaces (''Carder Jones'', ''Smith'') (''Lively Carder Jones'', ''Smith'')"
    by (simp add: claimed_replaces_def n1 n2)
  have r: "\<not> replaces (''Carder Jones'', ''Smith'') (''Lively Carder Jones'', ''Smith'')"
    by (simp add: choice_simps char_class_simps Let_def cong: let_weak_cong)
  have a: "add_pair [([''jones'', ''smith''], (''Lively Carder Jones'', ''Smith''))] (''Carder Jones'', ''Smith'')
       = [([''jones'', ''smith''], (''Lively Carder Jones'', ''Smith''))]"
    using m r by (simp add: add_pair_def merge_pair_def)
  from m n1 n2 c r a show ?thesis by blast
qed

text \<open>
  C2, as the code has it.  Noise is a yes-or-no test: some noise word occurs in one of
  the two lower-cased names.  When the new pair matches a stored one, it replaces it if it
  is free of noise and the stored pair is not; if both or neither carry noise, it
  replaces it when it has strictly more words, or as many words and strictly more
  characters; in every other case the stored pair stays.
\<close>

theorem replacement_policy:
  assumes "find_matched_key seen p = Some k" and "map_of seen k = Some e"
  shows "has_unwanted p
           = (\<exists>w\<in>set [''live'', ''round'', ''method'', ''card'', ''follow'', ''time''].
                 is_in w (lower (fst p)) \<or> is_in w (lower (snd p)))
    \<and> add_pair seen p
       = (if (\<not> has_unwanted p \<and> has_unwanted e)
             \<or> (has_unwanted p = has_unwanted e
                \<and> (word_count e < word_count p
                   \<or> (word_count p = word_count e \<and> total_len e < total_len p)))
          then AList.update k p seen else seen)"
proof -
  have "has_unwanted p
           = (\<exists>w\<in>set [''live'', ''round'', ''method'', ''card'', ''follow'', ''time''].
                 is_in w (lower (fst p)) \<or> is_in w (lower (snd p)))"
    unfolding has_unwanted_def unwanted_words_def list_ex_iff ..
  moreover have "replaces p e
      = ((\<not> has_unwanted p \<and> has_unwanted e)
             \<or> (has_unwanted p = has_unwanted e
                \<and> (word_count e < word_count p
                   \<or> (word_count p = word_count e \<and> total_len e < total_len p))))"
    unfolding replaces_def by auto
  ultimately show ?thesis
    using assms by (simp add: add_pair_def merge_pair_def)
qed

theorem replacement_policy_witness:
  "find_matched_key [([''gaethje'', ''holloway''], (''Gaethje'', ''Holloway''))]
       (''Justin Gaethje'', ''Max Holloway'') = Some [''gaethje'', ''holloway'']
   \<and> \<not> has_unwanted (''Justin Gaethje'', ''Max Holloway'')
   \<and> \<not> has_unwanted (''Gaethje'', ''Holloway'')
   \<and> word_count (''Gaethje'', ''Holloway'') < word_count (''Justin Gaethje'', ''Max Holloway'')
   \<and> add_pair [([''gaethje'', ''holloway''], (''Gaethje'', ''Holloway''))]
       (''Justin Gaethje'', ''Max Holloway'')
     = [([''gaethje'', ''holloway''], (''Justin Gaethje'', ''Max Holloway''))]"
proof -
  let ?seen = "[([''gaethje'', ''holloway''], (''Gaethje'', ''Holloway''))]"
  have f: "find_matched_key ?seen (''Justin Gaethje'', ''Max Holloway'') = Some [''gaethje'', ''holloway'']"
    by (simp add: same_fight_def match_simps char_class_simps Let_def cong: let_weak_cong)
  have l: "map_of ?seen [''gaethje'', ''holloway''] = Some (''Gaethje'', ''Holloway'')"
    by simp
  have u1: "\<not> has_unwanted (''Justin Gaethje'', ''Max Holloway'')"
    by (simp add: has_unwanted_def unwanted_words_def lower_def char_class_simps)
  have u2: "\<not> has_unwanted (''Gaethje'', ''Holloway'')"
    by (simp add: has_unwanted_def unwanted_words_def lower_def char_class_simps)
  have w: "word_count (''Gaethje'', ''Holloway'') < word_count (''Justin Gaethje'', ''Max Holloway'')"
    by (simp add: word_count_def split.simps char_class_simps)
  from replacement_policy [OF f l] u1 u2 w
  have "add_pair ?seen (''Justin Gaethje'', ''Max Holloway'')
     = [([''gaethje'', ''holloway''], (''Justin Gaethje'', ''Max Holloway''))]"
    by simp
  with f u1 u2 w show ?thesis by blast
qed




text \<open>
  C4.  Of two extracted valid pairs whose corresponding sides match in both directions,
  the result holds at most one entry that stands for either of them, that is, at most one
  entry that passes the code's own test against the first or the second pair.
\<close>

theorem matching_pairs_one_entry:
  assumes "p1 \<in> set (valid_pairs text_content)" and "p2 \<in> set (valid_pairs text_content)"
    and "names_match (fst p1) (fst p2)" and "names_match (fst p2) (fst p1)"
    and "names_match (snd p1) (snd p2)" and "names_match (snd p2) (snd p1)"
  shows "length (filter (\<lambda>e. same_fight p1 e \<or> same_fight p2 e)
                   (get_fighter_pairs_from_ufc_event text_content)) \<le> 1"
proof -
  from assms(3,5) have "same_fight p1 p2" by (simp add: same_fight_def)
  then have "pair_key p1 = pair_key p2" by (rule same_fight_key)
  then show ?thesis
    unfolding get_fighter_pairs_from_ufc_event_def by (rule at_most_one_entry)
qed

theorem matching_pairs_one_entry_witness:
  "(''Justin Gaethje'', ''Max Holloway'')
      \<in> set (valid_pairs ''#4 Justin Gaethje vs Max Holloway. Live now Gaethje vs Holloway.'')
   \<and> (''Gaethje'', ''Holloway'')
      \<in> set (valid_pairs ''#4 Justin Gaethje vs Max Holloway. Live now Gaethje vs Holloway.'')
   \<and> names_match ''Justin Gaethje'' ''Gaethje'' \<and> names_match ''Gaethje'' ''Justin Gaethje''
   \<and> names_match ''Max Holloway'' ''Holloway'' \<and> names_match ''Holloway'' ''Max Holloway''
   \<and> length (filter (\<lambda>e. same_fight (''Justin Gaethje'', ''Max Holloway'') e
                          \<or> same_fight (''Gaethje'', ''Holloway'') e)
         (get_fighter_pairs_from_ufc_event
            ''#4 Justin Gaethje vs Max Holloway. Live now Gaethje vs Holloway.'')) \<le> 1"
proof -
  let ?t = "''#4 Justin Gaethje vs Max Holloway. Live now Gaethje vs Holloway.''"
  have v: "valid_pairs ?t = [(''Justin Gaethje'', ''Max Holloway''), (''Gaethje'', ''Holloway'')]"
    by (simp add: valid_pairs_def scan_two_mentions cleaned_full cleaned_live valid_full valid_short)
  have 1: "(''Justin Gaethje'', ''Max Holloway'') \<in> set (valid_pairs ?t)" unfolding v by simp
  have 2: "(''Gaethje'', ''Holloway'') \<in> set (valid_pairs ?t)" unfolding v by simp
  have 3: "names_match ''Justin Gaethje'' ''Gaethje''"
    by (simp add: match_simps char_class_simps Let_def cong: let_weak_cong)
  have 4: "names_match ''Gaethje'' ''Justin Gaethje''"
    by (simp add: match_simps char_class_simps Let_def cong: let_weak_cong)
  have 5: "names_match ''Max Holloway'' ''Holloway''"
    by (simp add: match_simps char_class_simps Let_def cong: let_weak_cong)
  have 6: "names_match ''Holloway'' ''Max Holloway''"
    by (simp add: match_simps char_class_simps Let_def cong: let_weak_cong)
  from matching_pairs_one_entry [OF 1 2] 3 4 5 6
  have "length (filter (\<lambda>e. same_fight (''Justin Gaethje'', ''Max Holloway'') e
                          \<or> same_fight (''Gaethje'', ''Holloway'') e)
         (get_fighter_pairs_from_ufc_event ?t)) \<le> 1" by simp
  with 1 2 3 4 5 6 show ?thesis by blast
qed

text \<open>
  C5.  The matcher holds exactly when the two names are equal up to case, or one
  lower-cased name is a substring of the other and the last token of the shorter equals
  the last token of the longer, both lower-cased.  It holds for Gaethje and Justin
  Gaethje, fails for Justin Gaethje and Max Holloway, and holds for Jon Jones with itself.
\<close>

theorem names_match_as_specified:
  "names_match a b = claimed_names_match a b
   \<and> names_match ''Gaethje'' ''Justin Gaethje''
   \<and> \<not> names_match ''Justin Gaethje'' ''Max Holloway''
   \<and> names_match ''Jon Jones'' ''Jon Jones''"
proof -
  have "names_match a b = claimed_names_match a b"
    unfolding names_match_iff claimed_names_match_def Let_def
    by (cases "length a \<le> length b") auto
  moreover have "names_match ''Gaethje'' ''Justin Gaethje''"
    by (simp add: match_simps char_class_simps Let_def cong: let_weak_cong)
  moreover have "\<not> names_match ''Justin Gaethje'' ''Max Holloway''"
    by (simp add: match_simps char_class_simps Let_def cong: let_weak_cong)
  moreover have "names_match ''Jon Jones'' ''Jon Jones''"
    by (simp add: match_simps char_class_simps Let_def cong: let_weak_cong)
  ultimately show ?thesis by blast
qed

theorem names_match_as_specified_witness:
  "names_match ''Holloway'' ''Max Holloway'' \<and> claimed_names_match ''Holloway'' ''Max Holloway''"
proof -
  have h: "names_match ''Holloway'' ''Max Holloway''"
    by (simp add: match_simps char_class_simps Let_def cong: let_weak_cong)
  with names_match_as_specified [of "''Holloway''" "''Max Holloway''"] show ?thesis by blast
qed

text \<open>
  C6.  The cleaner removes a leading rank marker, the champion marker, a leading keyword
  and a trailing keyword.  For every input whose whitespace-normalised form is a plain
  name with at most one marker of each kind around it (a hash, digits and a space; the
  champion letter and a space; any of the eight prefix keywords in any case and a space;
  a space and any of the eight suffix keywords in any case), the cleaned name is the
  plain name.  In particular #4 Justin Gaethje becomes Justin Gaethje, Live now Israel
  Adesanya becomes Israel Adesanya, and Tom Aspinall Round becomes Tom Aspinall.
\<close>

theorem clean_fighter_name_strips:
  "(plain_name y
      \<and> (rank = [] \<or> rank_marker rank) \<and> (champ = [] \<or> champ = ''C '')
      \<and> (pre = [] \<or> prefix_marker pre) \<and> (suf = [] \<or> suffix_marker suf)
      \<and> sub_ws (strip x) = rank @ champ @ pre @ y @ suf
      \<longrightarrow> clean_fighter_name x = y)
   \<and> clean_fighter_name ''#4 Justin Gaethje'' = ''Justin Gaethje''
   \<and> clean_fighter_name ''Live now Israel Adesanya'' = ''Israel Adesanya''
   \<and> clean_fighter_name ''Tom Aspinall Round'' = ''Tom Aspinall''"
proof -
  have "clean_fighter_name ''#4 Justin Gaethje'' = ''Justin Gaethje''"
    by (simp add: clean_simps char_class_simps Let_def cong: let_weak_cong)
  moreover have "clean_fighter_name ''Live now Israel Adesanya'' = ''Israel Adesanya''"
    by (simp add: clean_simps char_class_simps Let_def cong: let_weak_cong)
  moreover have "clean_fighter_name ''Tom Aspinall Round'' = ''Tom Aspinall''"
    by (simp add: clean_simps char_class_simps Let_def cong: let_weak_cong)
  ultimately show ?thesis
    using clean_decorated [of y rank champ pre suf x] by blast
qed

theorem clean_fighter_name_strips_witness:
  "plain_name ''Tom Aspinall'' \<and> rank_marker ''#12 '' \<and> prefix_marker ''main CARD ''
   \<and> suffix_marker '' Follow LIVE''
   \<and> sub_ws (strip ''#12  C main CARD Tom  Aspinall Follow LIVE '')
       = ''#12 C main CARD Tom Aspinall Follow LIVE''
   \<and> clean_fighter_name ''#12  C main CARD Tom  Aspinall Follow LIVE '' = ''Tom Aspinall''"
proof -
  let ?x = "''#12  C main CARD Tom  Aspinall Follow LIVE ''"
  have p: "plain_name ''Tom Aspinall''"
    by (simp add: plain_name_def front_words_def back_words_def strip_def split.simps lower_def
          char_class_simps)
  have r: "rank_marker ''#12 ''"
    by (simp add: rank_marker_def char_class_simps)
  have m: "prefix_marker ''main CARD ''"
    by (simp add: prefix_marker_def ci_eq_def lower_def char_class_simps)
  have s: "suffix_marker '' Follow LIVE''"
    by (simp add: suffix_marker_def ci_eq_def lower_def char_class_simps)
  have n: "sub_ws (strip ?x) = ''#12 C main CARD Tom Aspinall Follow LIVE''"
    by (simp add: strip_def char_class_simps)
  from clean_fighter_name_strips
         [of "''Tom Aspinall''" "''#12 ''" "''C ''" "''main CARD ''" "'' Follow LIVE''" ?x] p r m s n
  have "clean_fighter_name ?x = ''Tom Aspinall''" by simp
  with p r m s n show ?thesis by blast
qed

text \<open>
  C7.  A captured group can be 51 characters long, and it can hold whitespace other than
  the space: the quantifier allows 50 characters after the capital, and the class holds
  every whitespace character.
\<close>

theorem captured_group_51_and_tab:
  "findall None ''Aaaaaaaaaaaaaaaaaaaaaaaaaaaaaaaaaaaaaaaaaaaaaaaaaaa vs Bob''
     = [(''Aaaaaaaaaaaaaaaaaaaaaaaaaaaaaaaaaaaaaaaaaaaaaaaaaaa'', ''Bob'')]
   \<and> length ''Aaaaaaaaaaaaaaaaaaaaaaaaaaaaaaaaaaaaaaaaaaaaaaaaaaa'' = 51
   \<and> findall None (''Al'' @ CHR 0x09 # ''Bo vs Bob'') = [(''Al'' @ CHR 0x09 # ''Bo'', ''Bob'')]
   \<and> (''Al'' @ CHR 0x09 # ''Bo'') ! 2 = CHR 0x09
   \<and> CHR 0x09 \<noteq> CHR '' ''"
proof -
  have "findall None ''Aaaaaaaaaaaaaaaaaaaaaaaaaaaaaaaaaaaaaaaaaaaaaaaaaaa vs Bob''
     = [(''Aaaaaaaaaaaaaaaaaaaaaaaaaaaaaaaaaaaaaaaaaaaaaaaaaaa'', ''Bob'')]"
    by (simp add: scan_simps char_class_simps Let_def cong: let_weak_cong)
  moreover have "findall None (''Al'' @ CHR 0x09 # ''Bo vs Bob'') = [(''Al'' @ CHR 0x09 # ''Bo'', ''Bob'')]"
    by (simp add: scan_simps char_class_simps Let_def cong: let_weak_cong)
  ultimately show ?thesis by simp
qed

text \<open>
  C7, as the code has it.  Every group the scan captures starts with a capital A-Z,
  continues with ASCII letters, whitespace characters, hyphens and apostrophes only, and
  is between 3 and 51 characters long.
\<close>

theorem captured_groups_shape:
  assumes "(g1, g2) \<in> set (findall None text_content)"
  shows "captured_shape g1 \<and> captured_shape g2"
proof -
  have "(g1, g2) \<in> set (findall prev s) \<Longrightarrow> captured_shape g1 \<and> captured_shape g2" for prev s
  proof (induction prev s rule: findall.induct)
    case (1 prev)
    then show ?case by (simp add: findall.simps)
  next
    case (2 prev c cs)
    show ?case
    proof (cases "match_at prev (c # cs)")
      case None
      with 2 show ?thesis by (simp add: findall.simps)
    next
      case (Some a)
      obtain h1 h2 r where a: "a = (h1, h2, r)" by (cases a)
      from Some a have sh: "captured_shape h1 \<and> captured_shape h2" by (auto dest: match_at_shape)
      from 2(3) Some a have "(g1, g2) = (h1, h2) \<or> (g1, g2) \<in> set (findall (Some (last h2)) r)"
        by (simp add: findall.simps)
      then show ?thesis
      proof
        assume "(g1, g2) = (h1, h2)"
        with sh show ?thesis by simp
      next
        assume "(g1, g2) \<in> set (findall (Some (last h2)) r)"
        with 2(2) [OF Some, of h1 "(h2, r)" h2 r] a show ?thesis by simp
      qed
    qed
  qed
  from this [OF assms] show ?thesis .
qed

theorem captured_groups_shape_witness:
  "(''C Jon Jones'', ''Tom Aspinall'') \<in> set (findall None ''C Jon Jones vs Tom Aspinall, Main Card'')
   \<and> captured_shape ''C Jon Jones'' \<and> captured_shape ''Tom Aspinall''"
proof -
  have "findall None ''C Jon Jones vs Tom Aspinall, Main Card'' = [(''C Jon Jones'', ''Tom Aspinall'')]"
    by (simp add: scan_simps char_class_simps Let_def cong: let_weak_cong)
  then have h: "(''C Jon Jones'', ''Tom Aspinall'') \<in> set (findall None ''C Jon Jones vs Tom Aspinall, Main Card'')"
    by simp
  from captured_groups_shape [OF h] h show ?thesis by blast
qed

text \<open>
  C8.  On the empty text, and whenever no pair passes the filter, the extractor returns
  the empty list, the script prints its heading and the no-fights line, and no file is
  saved.
\<close>

theorem no_valid_pairs_no_file:
  "get_fighter_pairs_from_ufc_event [] = []
   \<and> script [] output_file
       = \<lparr>printed = [''Fights found:'', ''No fights found to save.''], saved = None\<rparr>
   \<and> (valid_pairs text_content = [] \<longrightarrow>
        get_fighter_pairs_from_ufc_event text_content = []
        \<and> script text_content output_file
            = \<lparr>printed = [''Fights found:'', ''No fights found to save.''], saved = None\<rparr>)"
proof -
  have e: "get_fighter_pairs_from_ufc_event [] = []"
    by (simp add: get_fighter_pairs_from_ufc_event_def aggregate_def findall.simps)
  have g: "get_fighter_pairs_from_ufc_event text_content = []" if "valid_pairs text_content = []"
  proof -
    from that have "\<forall>m\<in>set (findall None text_content). \<not> valid_pair (cleaned m)"
      by (auto simp: valid_pairs_def filter_empty_conv)
    then have "foldl process_match [] (findall None text_content) = []"
      by (rule foldl_process_match_invalid)
    then show ?thesis by (simp add: get_fighter_pairs_from_ufc_event_def aggregate_def)
  qed
  have s: "script t output_file
       = \<lparr>printed = [''Fights found:'', ''No fights found to save.''], saved = None\<rparr>"
    if "get_fighter_pairs_from_ufc_event t = []" for t
    using that by (simp add: script_def)
  from e g s show ?thesis by blast
qed

theorem no_valid_pairs_no_file_witness:
  "valid_pairs ''United States vs Brazil'' = []
   \<and> get_fighter_pairs_from_ufc_event ''United States vs Brazil'' = []
   \<and> script ''United States vs Brazil'' ''ufc_324.xlsx''
       = \<lparr>printed = [''Fights found:'', ''No fights found to save.''], saved = None\<rparr>"
proof -
  have sc: "findall None ''United States vs Brazil'' = [(''United States'', ''Brazil'')]"
    by (simp add: scan_simps char_class_simps Let_def cong: let_weak_cong)
  have cl: "cleaned (''United States'', ''Brazil'') = (''United States'', ''Brazil'')"
    by (simp add: cleaned_def clean_simps char_class_simps Let_def cong: let_weak_cong)
  have iv: "\<not> valid_name ''United States''"
    by (simp add: valid_simps char_class_simps Let_def cong: let_weak_cong)
  have h: "valid_pairs ''United States vs Brazil'' = []"
    by (simp add: valid_pairs_def sc cl valid_pair_def iv)
  with no_valid_pairs_no_file [of "''ufc_324.xlsx''" "''United States vs Brazil''"]
  show ?thesis by blast
qed

text \<open>
  C9.  Two pairs with the same two surnames and different first names do not match each
  other on any side, yet they share one sorted key, so the second assignment replaces the
  first entry and only the later pair is returned.
\<close>

theorem same_surnames_overwrite:
  "\<exists>text_content p1 p2.
     valid_pairs text_content = [p1, p2]
     \<and> \<not> names_match (fst p2) (fst p1) \<and> \<not> names_match (snd p2) (snd p1)
     \<and> \<not> names_match (fst p2) (snd p1) \<and> \<not> names_match (snd p2) (fst p1)
     \<and> pair_key p1 = pair_key p2
     \<and> add_pair [] p1 = [(pair_key p1, p1)]
     \<and> find_matched_key [(pair_key p1, p1)] p2 = None
     \<and> add_pair [(pair_key p1, p1)] p2 = [(pair_key p1, p2)]
     \<and> get_fighter_pairs_from_ufc_event text_content = [p2]"
  using namesakes_facts by blast

text \<open>
  C10.  Two names that the matcher accepts have the same normalised key: a positive
  match implies equal results of \<open>normalize_name_for_matching\<close>.
\<close>

theorem names_match_same_key:
  assumes "names_match a b"
  shows "normalize_name_for_matching a = normalize_name_for_matching b"
proof -
  from assms consider (same) "lower a = lower b"
    | (surname) "split a \<noteq> []" "split b \<noteq> []" "lower (last (split a)) = lower (last (split b))"
    unfolding names_match_iff by blast
  then show ?thesis
  proof cases
    case same
    then show ?thesis by (rule normalize_eq_of_lower_eq)
  next
    case surname
    then show ?thesis
      by (simp add: normalize_name_for_matching_def Let_def Suc_le_eq)
  qed
qed

theorem names_match_same_key_witness:
  "names_match ''Gaethje'' ''Justin Gaethje''
   \<and> normalize_name_for_matching ''Gaethje'' = normalize_name_for_matching ''Justin Gaethje''"
proof -
  have h: "names_match ''Gaethje'' ''Justin Gaethje''"
    by (simp add: match_simps char_class_simps Let_def cong: let_weak_cong)
  from names_match_same_key [OF h] h show ?thesis by blast
qed

end
